theory Spec2Isabelle
  imports Main "HOL-Library.Sublist" "HOL-Library.AList"
begin

section \<open>Strings\<close>

text \<open>
  A JavaScript string is modelled by its UTF-8 encoding, a \<open>string\<close> (a list of
  bytes). All patterns the script searches for are ASCII, so searching the UTF-8 bytes
  gives what searching the UTF-16 code units gives, and two strings are equal when their
  encodings are.
\<close>

text \<open>
  Well-formed UTF-8 (the Unicode standard, table 3-7): one byte below \<open>0x80\<close>, or a
  lead byte \<open>0xC2..0xF4\<close> with one, two or three continuation bytes
  \<open>0x80..0xBF\<close>, the first of them narrowed after \<open>0xE0\<close>, \<open>0xED\<close>,
  \<open>0xF0\<close> and \<open>0xF4\<close> so that no encoding is overlong, none is a surrogate, and
  none lies beyond \<open>U+10FFFF\<close>.
\<close>

definition in_range :: "nat \<Rightarrow> nat \<Rightarrow> char \<Rightarrow> bool" where
  "in_range lo hi c = (lo \<le> of_char c \<and> (of_char c :: nat) \<le> hi)"

fun valid_utf8 :: "string \<Rightarrow> bool" where
  "valid_utf8 [] = True"
| "valid_utf8 (c # cs) =
     (if (of_char c :: nat) < 0x80 then valid_utf8 cs
      else if in_range 0xC2 0xDF c then
        (case cs of
           c1 # rest \<Rightarrow> in_range 0x80 0xBF c1 \<and> valid_utf8 rest
         | _ \<Rightarrow> False)
      else if in_range 0xE0 0xEF c then
        (case cs of
           c1 # c2 # rest \<Rightarrow>
             (if (of_char c :: nat) = 0xE0 then in_range 0xA0 0xBF c1
              else if (of_char c :: nat) = 0xED then in_range 0x80 0x9F c1
              else in_range 0x80 0xBF c1)
             \<and> in_range 0x80 0xBF c2 \<and> valid_utf8 rest
         | _ \<Rightarrow> False)
      else if in_range 0xF0 0xF4 c then
        (case cs of
           c1 # c2 # c3 # rest \<Rightarrow>
             (if (of_char c :: nat) = 0xF0 then in_range 0x90 0xBF c1
              else if (of_char c :: nat) = 0xF4 then in_range 0x80 0x8F c1
              else in_range 0x80 0xBF c1)
             \<and> in_range 0x80 0xBF c2 \<and> in_range 0x80 0xBF c3 \<and> valid_utf8 rest
         | _ \<Rightarrow> False)
      else False)"

text \<open>\<^verbatim>\<open>s.includes(pat)\<close>: \<open>pat\<close> occurs in \<open>s\<close> as a contiguous substring.\<close>

fun js_includes :: "string \<Rightarrow> string \<Rightarrow> bool" where
  "js_includes [] pat = (pat = [])"
| "js_includes (c # cs) pat = (prefix pat (c # cs) \<or> js_includes cs pat)"

text \<open>
  \<^verbatim>\<open>s.replace(pat, rep)\<close> with a string pattern: only the first occurrence is
  replaced. The replacement strings of the script (\<open>''''\<close> and \<open>''solution''\<close>) hold
  no \<open>$\<close>, so they are inserted as they are.
\<close>

fun js_replace :: "string \<Rightarrow> string \<Rightarrow> string \<Rightarrow> string" where
  "js_replace pat rep [] = (if pat = [] then rep else [])"
| "js_replace pat rep (c # cs) =
     (if prefix pat (c # cs) then rep @ drop (length pat) (c # cs)
      else c # js_replace pat rep cs)"

text \<open>\<^verbatim>\<open>/(problem|solution)/.test(dir)\<close>\<close>

definition matches_variant :: "string \<Rightarrow> bool" where
  "matches_variant dir = (js_includes dir ''problem'' \<or> js_includes dir ''solution'')"

text \<open>\<^verbatim>\<open>s.replace(/\\|\//g, '__sep__')\<close>: every backslash and every slash.\<close>

definition replace_seps :: "string \<Rightarrow> string" where
  "replace_seps s =
     concat (map (\<lambda>c. if c = CHR 0x5C \<or> c = CHR ''/'' then ''__sep__'' else [c]) s)"

section \<open>The path module (POSIX)\<close>

definition path_sep :: string where
  "path_sep = ''/''"

text \<open>\<^verbatim>\<open>s.split(d)\<close>: the pieces between the separators, at least one piece.\<close>

fun split_on :: "char \<Rightarrow> string \<Rightarrow> string list" where
  "split_on d [] = [[]]"
| "split_on d (c # cs) =
     (if c = d then [] # split_on d cs
      else (case split_on d cs of [] \<Rightarrow> [[c]] | x # xs \<Rightarrow> (c # x) # xs))"

fun join_with :: "string \<Rightarrow> string list \<Rightarrow> string" where
  "join_with d [] = []"
| "join_with d [x] = x"
| "join_with d (x # y # ys) = x @ d @ join_with d (y # ys)"

text \<open>
  \<open>normalizeString\<close> of Node's path module, on the segments: empty segments and
  \<open>.\<close> are dropped, \<open>..\<close> removes the segment before it (or stays, above the
  start of a relative path). The stack holds the kept segments, last one first.
\<close>

fun normalize_segs :: "bool \<Rightarrow> string list \<Rightarrow> string list \<Rightarrow> string list" where
  "normalize_segs allowAboveRoot stack [] = stack"
| "normalize_segs allowAboveRoot stack (seg # segs) =
     (if seg = [] \<or> seg = ''.'' then normalize_segs allowAboveRoot stack segs
      else if seg = ''..'' then
        (case stack of
           [] \<Rightarrow> normalize_segs allowAboveRoot (if allowAboveRoot then [''..''] else []) segs
         | seg0 # below \<Rightarrow>
             if seg0 = ''..'' then normalize_segs allowAboveRoot (if allowAboveRoot then ''..'' # stack else stack) segs
             else normalize_segs allowAboveRoot below segs)
      else normalize_segs allowAboveRoot (seg # stack) segs)"

definition path_normalize :: "string \<Rightarrow> string" where
  "path_normalize p =
     (if p = [] then ''.''
      else
        let isAbsolute = (hd p = CHR ''/'');
            trailingSeparator = (last p = CHR ''/'');
            q = join_with ''/'' (rev (normalize_segs (\<not> isAbsolute) [] (split_on CHR ''/'' p)))
        in if q = [] then (if isAbsolute then ''/'' else if trailingSeparator then ''./'' else ''.'')
           else (if isAbsolute then ''/'' else []) @ q @ (if trailingSeparator then ''/'' else []))"

definition path_join :: "string list \<Rightarrow> string" where
  "path_join args =
     (let joined = filter (\<lambda>a. a \<noteq> []) args
      in if joined = [] then ''.'' else path_normalize (join_with ''/'' joined))"

section \<open>The filesystem\<close>

text \<open>
  The filesystem is a table from normalized absolute paths to entries, in directory
  order. The root directory \<open>/\<close> always exists. A path is a string, as the script
  has it; the content of a file is a list of bytes. Symbolic links, permissions,
  timestamps and names that are not well-formed UTF-8 (which no string addresses) are
  not modelled.
\<close>

datatype entry = File string | Dir

type_synonym filesystem = "(string \<times> entry) list"

datatype error =
    SyntaxError | TypeError | Unsupported | OutOfFuel
  | ENOENT | ENOTDIR | EISDIR | ERR_FS_CP

definition stat :: "filesystem \<Rightarrow> string \<Rightarrow> entry option" where
  "stat fs p = (if p = ''/'' then Some Dir else map_of fs p)"

definition dir_prefix :: "string \<Rightarrow> string" where
  "dir_prefix d = (if d = ''/'' then ''/'' else d @ ''/'')"

text \<open>\<open>under p k\<close>: \<open>k\<close> is \<open>p\<close> or lies below it.\<close>

definition under :: "string \<Rightarrow> string \<Rightarrow> bool" where
  "under p k = (k = p \<or> prefix (dir_prefix p) k)"

definition proper_name :: "string \<Rightarrow> bool" where
  "proper_name n = (n \<noteq> [] \<and> CHR ''/'' \<notin> set n \<and> n \<noteq> ''.'' \<and> n \<noteq> ''..'')"

definition child_name :: "string \<Rightarrow> string \<Rightarrow> string list" where
  "child_name d k =
     (if prefix (dir_prefix d) k \<and> proper_name (drop (length (dir_prefix d)) k)
      then [drop (length (dir_prefix d)) k] else [])"

definition readdir :: "filesystem \<Rightarrow> string \<Rightarrow> error + string list" where
  "readdir fs d =
     (case stat fs d of
        None \<Rightarrow> Inl ENOENT
      | Some (File c) \<Rightarrow> Inl ENOTDIR
      | Some Dir \<Rightarrow> Inr (concat (map (\<lambda>(k, e). child_name d k) fs)))"

text \<open>
  \<^verbatim>\<open>readFile(p, 'utf8')\<close> decodes the bytes of the file. Well-formed UTF-8 decodes to
  the string it encodes, which the model holds as those same bytes (a byte order mark is
  kept, as Node keeps it). Bytes that are not well-formed UTF-8, which Node decodes with
  \<open>U+FFFD\<close> in place of what it cannot read, are outside the model and reported as
  \<open>Unsupported\<close>.
\<close>

definition readFile :: "filesystem \<Rightarrow> string \<Rightarrow> error + string" where
  "readFile fs p =
     (case stat fs p of
        None \<Rightarrow> Inl ENOENT
      | Some Dir \<Rightarrow> Inl EISDIR
      | Some (File c) \<Rightarrow> if valid_utf8 c then Inr c else Inl Unsupported)"

text \<open>
  \<open>writeFile\<close> replaces the content of a file that exists with the UTF-8 encoding of
  the string. (The script writes only files it has just read; creating a file is
  therefore left out of the model and reported as \<open>Unsupported\<close>. So is a list of
  bytes that is not well-formed UTF-8: it is the encoding of no string.)
\<close>

definition writeFile :: "filesystem \<Rightarrow> string \<Rightarrow> string \<Rightarrow> error + filesystem" where
  "writeFile fs p c =
     (case stat fs p of
        None \<Rightarrow> Inl Unsupported
      | Some Dir \<Rightarrow> Inl EISDIR
      | Some (File old) \<Rightarrow>
          if valid_utf8 c then Inr (AList.update p (File c) fs) else Inl Unsupported)"

text \<open>\<^verbatim>\<open>rm(p, { recursive: true, force: true })\<close>: \<open>p\<close> and all below it; no error
  when \<open>p\<close> does not exist.\<close>

definition rm :: "filesystem \<Rightarrow> string \<Rightarrow> filesystem" where
  "rm fs p = filter (\<lambda>(k, e). \<not> under p k) fs"

text \<open>The path of the directory holding \<open>p\<close>.\<close>

definition parent :: "string \<Rightarrow> string" where
  "parent p =
     (let q = rev (tl (dropWhile (\<lambda>c. c \<noteq> CHR ''/'') (rev p)))
      in if q = [] then ''/'' else q)"

text \<open>
  \<^verbatim>\<open>cp(src, dest, { recursive: true })\<close>. Every entry at or below \<open>src\<close> is put at
  the same relative path below \<open>dest\<close>: a directory is created unless it is there, a
  file is created or overwritten; a directory over a file, or a file over a directory, is
  an error, as is copying a tree onto or into itself. The copy is atomic in the model: on
  an error nothing is changed. A destination whose parent directory is missing is
  reported as \<open>Unsupported\<close> (Node would create the parents; the script never does that,
  its destinations lie in directories it has listed).
\<close>

fun put_entry :: "string \<times> entry \<Rightarrow> error + filesystem \<Rightarrow> error + filesystem" where
  "put_entry (k, e) (Inl err) = Inl err"
| "put_entry (k, e) (Inr fs) =
     (case (stat fs k, e) of
        (None, _) \<Rightarrow> Inr (fs @ [(k, e)])
      | (Some Dir, Dir) \<Rightarrow> Inr fs
      | (Some (File old), File c) \<Rightarrow> Inr (AList.update k (File c) fs)
      | _ \<Rightarrow> Inl ERR_FS_CP)"

definition cp :: "filesystem \<Rightarrow> string \<Rightarrow> string \<Rightarrow> error + filesystem" where
  "cp fs src dest =
     (case stat fs src of
        None \<Rightarrow> Inl ENOENT
      | Some e \<Rightarrow>
          if under src dest then Inl ERR_FS_CP
          else (case stat fs (parent dest) of
                  None \<Rightarrow> Inl Unsupported
                | Some (File c) \<Rightarrow> Inl ENOTDIR
                | Some Dir \<Rightarrow>
                    fold put_entry
                      (map (\<lambda>(k, e). (dest @ drop (length src) k, e))
                         (filter (\<lambda>(k, e). under src k) fs))
                      (Inr fs)))"

section \<open>JSON\<close>

text \<open>
  The values \<open>JSON.parse\<close> returns. A number is a double; the model holds the
  doubles that are integers of magnitude up to \<open>2\<^sup>5\<^sup>4\<close>, as \<open>int\<close>. An object is the
  list of its properties in enumeration order.
\<close>

datatype json =
    JNull | JBool bool | JNum int | JStr string
  | JArr "json list" | JObj "(string \<times> json) list"

subsection \<open>\<open>JSON.stringify(value, null, 2)\<close>\<close>

definition hex_digit :: "nat \<Rightarrow> char" where
  "hex_digit n = ''0123456789abcdef'' ! n"

definition escape_char :: "char \<Rightarrow> string" where
  "escape_char c =
     (if c = CHR 0x22 then [CHR 0x5C, CHR 0x22]
      else if c = CHR 0x5C then [CHR 0x5C, CHR 0x5C]
      else if c = CHR 0x08 then [CHR 0x5C, CHR ''b'']
      else if c = CHR 0x0C then [CHR 0x5C, CHR ''f'']
      else if c = CHR 0x0A then [CHR 0x5C, CHR ''n'']
      else if c = CHR 0x0D then [CHR 0x5C, CHR ''r'']
      else if c = CHR 0x09 then [CHR 0x5C, CHR ''t'']
      else if (of_char c :: nat) < 32 then
        [CHR 0x5C, CHR ''u'', CHR ''0'', CHR ''0'',
         hex_digit (of_char c div 16), hex_digit (of_char c mod 16)]
      else [c])"

definition quote :: "string \<Rightarrow> string" where
  "quote s = CHR 0x22 # concat (map escape_char s) @ [CHR 0x22]"

text \<open>
  The decimal numeral of an integer that is not negative, and of any integer.
\<close>

function show_digits :: "int \<Rightarrow> string" where
  "show_digits i =
     (if i < 10 then [char_of (48 + i)]
      else show_digits (i div 10) @ [char_of (48 + i mod 10)])"
  by pat_completeness auto
termination
  by (relation "measure nat") auto

declare show_digits.simps [simp del]

definition show_int :: "int \<Rightarrow> string" where
  "show_int i = (if i < 0 then CHR ''-'' # show_digits (- i) else show_digits i)"

definition indent :: "nat \<Rightarrow> string" where
  "indent n = replicate n CHR '' ''"

fun stringify_at :: "nat \<Rightarrow> json \<Rightarrow> string" where
  "stringify_at ind JNull = ''null''"
| "stringify_at ind (JBool b) = (if b then ''true'' else ''false'')"
| "stringify_at ind (JNum i) = show_int i"
| "stringify_at ind (JStr s) = quote s"
| "stringify_at ind (JArr xs) =
     (if xs = [] then ''[]''
      else ''['' @ [CHR 0x0A]
        @ join_with ('','' @ [CHR 0x0A])
            (map (\<lambda>x. indent (ind + 2) @ stringify_at (ind + 2) x) xs)
        @ [CHR 0x0A] @ indent ind @ '']'')"
| "stringify_at ind (JObj kvs) =
     (if kvs = [] then ''{}''
      else ''{'' @ [CHR 0x0A]
        @ join_with ('','' @ [CHR 0x0A])
            (map (\<lambda>kv. indent (ind + 2) @ quote (fst kv) @ '': ''
                          @ stringify_at (ind + 2) (snd kv)) kvs)
        @ [CHR 0x0A] @ indent ind @ ''}'')"

definition JSON_stringify :: "json \<Rightarrow> string" where
  "JSON_stringify v = stringify_at 0 v"

subsection \<open>\<open>JSON.parse\<close>\<close>

text \<open>
  The grammar of JSON text, read by recursive descent; a number is read as the integer
  its numeral writes. Outside the model, and reported as \<open>Unsupported\<close>: numbers with
  a fraction or an exponent (digits followed by \<open>.\<close>, \<open>e\<close> or \<open>E\<close>), and
  strings with a surrogate that has no partner. The fuel bounds the number of nested
  calls.
\<close>

definition is_ws :: "char \<Rightarrow> bool" where
  "is_ws c = (c = CHR '' '' \<or> c = CHR 0x09 \<or> c = CHR 0x0A \<or> c = CHR 0x0D)"

definition skip_ws :: "string \<Rightarrow> string" where
  "skip_ws s = dropWhile is_ws s"

definition is_digit :: "char \<Rightarrow> bool" where
  "is_digit c = (c \<in> set ''0123456789'')"

definition digit_val :: "char \<Rightarrow> int" where
  "digit_val c = of_char c - 48"

definition hex_val :: "char \<Rightarrow> nat option" where
  "hex_val c =
     (if c \<in> set ''0123456789'' then Some (of_char c - 48)
      else if c \<in> set ''abcdef'' then Some (of_char c - 87)
      else if c \<in> set ''ABCDEF'' then Some (of_char c - 55)
      else None)"

definition unescape :: "char \<Rightarrow> char option" where
  "unescape e =
     (if e = CHR 0x22 then Some (CHR 0x22)
      else if e = CHR 0x5C then Some (CHR 0x5C)
      else if e = CHR ''/'' then Some (CHR ''/'')
      else if e = CHR ''b'' then Some (CHR 0x08)
      else if e = CHR ''f'' then Some (CHR 0x0C)
      else if e = CHR ''n'' then Some (CHR 0x0A)
      else if e = CHR ''r'' then Some (CHR 0x0D)
      else if e = CHR ''t'' then Some (CHR 0x09)
      else None)"

definition cons_char :: "char \<Rightarrow> error + (string \<times> string) \<Rightarrow> error + (string \<times> string)" where
  "cons_char c r = (case r of Inl e \<Rightarrow> Inl e | Inr (s, rest) \<Rightarrow> Inr (c # s, rest))"

definition add_chars :: "string \<Rightarrow> error + (string \<times> string) \<Rightarrow> error + (string \<times> string)" where
  "add_chars cs r = (case r of Inl e \<Rightarrow> Inl e | Inr (s, rest) \<Rightarrow> Inr (cs @ s, rest))"

text \<open>The four hexadecimal digits of a \<open>\u\<close> escape.\<close>

definition hex4 :: "char \<Rightarrow> char \<Rightarrow> char \<Rightarrow> char \<Rightarrow> int option" where
  "hex4 h3 h2 h1 h0 =
     (case (hex_val h3, hex_val h2, hex_val h1, hex_val h0) of
        (Some x3, Some x2, Some x1, Some x0) \<Rightarrow>
          Some (4096 * int x3 + 256 * int x2 + 16 * int x1 + int x0)
      | _ \<Rightarrow> None)"

text \<open>The UTF-8 encoding of a code point.\<close>

definition utf8_encode :: "int \<Rightarrow> string" where
  "utf8_encode n =
     (if n < 0x80 then [char_of n]
      else if n < 0x800 then [char_of (0xC0 + n div 64), char_of (0x80 + n mod 64)]
      else if n < 0x10000 then
        [char_of (0xE0 + n div 4096), char_of (0x80 + n div 64 mod 64),
         char_of (0x80 + n mod 64)]
      else
        [char_of (0xF0 + n div 262144), char_of (0x80 + n div 4096 mod 64),
         char_of (0x80 + n div 64 mod 64), char_of (0x80 + n mod 64)])"

text \<open>
  The characters of a string literal, after its opening quote. A \<open>\u\<close> escape
  gives a UTF-16 code unit: a code point of its own, or a high surrogate
  (\<open>0xD800..0xDBFF\<close>) that makes one code point with the escape of a low surrogate
  (\<open>0xDC00..0xDFFF\<close>) right after it. A surrogate without its partner has no UTF-8
  encoding: a string that holds one is outside the model and reported as
  \<open>Unsupported\<close>.
\<close>

fun parse_chars :: "string \<Rightarrow> error + (string \<times> string)" where
  "parse_chars [] = Inl SyntaxError"
| "parse_chars (c # cs) =
     (if c = CHR 0x22 then Inr ([], cs)
      else if c = CHR 0x5C then
        (case cs of
           [] \<Rightarrow> Inl SyntaxError
         | e # cs' \<Rightarrow>
             if e = CHR ''u'' then
               (case cs' of
                  h3 # h2 # h1 # h0 # rest \<Rightarrow>
                    (case hex4 h3 h2 h1 h0 of
                       None \<Rightarrow> Inl SyntaxError
                     | Some hi \<Rightarrow>
                         if hi < 0xD800 \<or> 0xE000 \<le> hi then
                           add_chars (utf8_encode hi) (parse_chars rest)
                         else if hi < 0xDC00 then
                           (case rest of
                              b # u # l3 # l2 # l1 # l0 # rest' \<Rightarrow>
                                if b = CHR 0x5C \<and> u = CHR ''u'' then
                                  (case hex4 l3 l2 l1 l0 of
                                     None \<Rightarrow> Inl SyntaxError
                                   | Some lo \<Rightarrow>
                                       if 0xDC00 \<le> lo \<and> lo < 0xE000 then
                                         add_chars
                                           (utf8_encode
                                              (0x10000 + (hi - 0xD800) * 1024 + (lo - 0xDC00)))
                                           (parse_chars rest')
                                       else Inl Unsupported)
                                else Inl Unsupported
                            | _ \<Rightarrow> Inl Unsupported)
                         else Inl Unsupported)
                | _ \<Rightarrow> Inl SyntaxError)
             else (case unescape e of
                     None \<Rightarrow> Inl SyntaxError
                   | Some ch \<Rightarrow> cons_char ch (parse_chars cs')))
      else if (of_char c :: nat) < 32 then Inl SyntaxError
      else cons_char c (parse_chars cs))"

definition int_of_digits :: "string \<Rightarrow> int" where
  "int_of_digits ds = foldl (\<lambda>a d. 10 * a + digit_val d) 0 ds"

definition parse_number :: "string \<Rightarrow> error + (json \<times> string)" where
  "parse_number s =
     (let neg = (s \<noteq> [] \<and> hd s = CHR ''-'');
          s1 = (if neg then tl s else s);
          ds = takeWhile is_digit s1;
          rest = dropWhile is_digit s1
      in if ds = [] then Inl SyntaxError
         else if hd ds = CHR ''0'' \<and> length ds > 1 then Inl SyntaxError
         else if rest \<noteq> [] \<and> hd rest \<in> set ''.eE'' then Inl Unsupported
         else Inr (JNum (if neg then - int_of_digits ds else int_of_digits ds), rest))"

fun parse_value :: "nat \<Rightarrow> string \<Rightarrow> error + (json \<times> string)"
  and parse_elements :: "nat \<Rightarrow> string \<Rightarrow> error + (json list \<times> string)"
  and parse_members :: "nat \<Rightarrow> string \<Rightarrow> error + ((string \<times> json) list \<times> string)"
where
  "parse_value 0 s = Inl OutOfFuel"
| "parse_value (Suc n) s =
     (case s of
        [] \<Rightarrow> Inl SyntaxError
      | c # cs \<Rightarrow>
          if c = CHR 0x22 then
            (case parse_chars cs of Inl e \<Rightarrow> Inl e | Inr (str, rest) \<Rightarrow> Inr (JStr str, rest))
          else if c = CHR ''['' then
            (case skip_ws cs of
               [] \<Rightarrow> Inl SyntaxError
             | c' # cs' \<Rightarrow>
                 if c' = CHR '']'' then Inr (JArr [], cs')
                 else (case parse_elements n (c' # cs') of
                         Inl e \<Rightarrow> Inl e
                       | Inr (xs, rest) \<Rightarrow> Inr (JArr xs, rest)))
          else if c = CHR ''{'' then
            (case skip_ws cs of
               [] \<Rightarrow> Inl SyntaxError
             | c' # cs' \<Rightarrow>
                 if c' = CHR ''}'' then Inr (JObj [], cs')
                 else (case parse_members n (c' # cs') of
                         Inl e \<Rightarrow> Inl e
                       | Inr (kvs, rest) \<Rightarrow> Inr (JObj kvs, rest)))
          else if prefix ''null'' s then Inr (JNull, drop 4 s)
          else if prefix ''true'' s then Inr (JBool True, drop 4 s)
          else if prefix ''false'' s then Inr (JBool False, drop 5 s)
          else if c = CHR ''-'' \<or> is_digit c then parse_number s
          else Inl SyntaxError)"
| "parse_elements 0 s = Inl OutOfFuel"
| "parse_elements (Suc n) s =
     (case parse_value n s of
        Inl e \<Rightarrow> Inl e
      | Inr (x, rest) \<Rightarrow>
          (case skip_ws rest of
             [] \<Rightarrow> Inl SyntaxError
           | c # cs \<Rightarrow>
               if c = CHR '']'' then Inr ([x], cs)
               else if c = CHR '','' then
                 (case parse_elements n (skip_ws cs) of
                    Inl e \<Rightarrow> Inl e
                  | Inr (xs, rest') \<Rightarrow> Inr (x # xs, rest'))
               else Inl SyntaxError))"
| "parse_members 0 s = Inl OutOfFuel"
| "parse_members (Suc n) s =
     (case s of
        [] \<Rightarrow> Inl SyntaxError
      | q # s0 \<Rightarrow>
          if q \<noteq> CHR 0x22 then Inl SyntaxError
          else
            (case parse_chars s0 of
               Inl e \<Rightarrow> Inl e
             | Inr (k, s1) \<Rightarrow>
                 (case skip_ws s1 of
                    [] \<Rightarrow> Inl SyntaxError
                  | c # s2 \<Rightarrow>
                      if c \<noteq> CHR '':'' then Inl SyntaxError
                      else
                        (case parse_value n (skip_ws s2) of
                           Inl e \<Rightarrow> Inl e
                         | Inr (v, s3) \<Rightarrow>
                             (case skip_ws s3 of
                                [] \<Rightarrow> Inl SyntaxError
                              | c' # s4 \<Rightarrow>
                                  if c' = CHR ''}'' then Inr ([(k, v)], s4)
                                  else if c' = CHR '','' then
                                    (case parse_members n (skip_ws s4) of
                                       Inl e \<Rightarrow> Inl e
                                     | Inr (kvs, rest) \<Rightarrow> Inr ((k, v) # kvs, rest))
                                  else Inl SyntaxError)))))"

text \<open>
  The whole text is one value, with white space around it. Twice the length of the text
  and two is fuel that never runs out (lemma \<open>parse_text_fuel\<close>).
\<close>

definition parse_text :: "string \<Rightarrow> error + json" where
  "parse_text s =
     (case parse_value (2 * length s + 2) (skip_ws s) of
        Inl e \<Rightarrow> Inl e
      | Inr (v, rest) \<Rightarrow> if skip_ws rest = [] then Inr v else Inl SyntaxError)"

text \<open>
  One more kind of text is outside the model and reported as \<open>Unsupported\<close>:
  integers beyond \<open>2\<^sup>5\<^sup>4\<close> in magnitude, which \<open>JSON.stringify\<close> need not write
  with the digits of their value.
\<close>

fun supported :: "json \<Rightarrow> bool" where
  "supported (JNum i) = (\<bar>i\<bar> \<le> 18014398509481984)"
| "supported (JArr xs) = list_all supported xs"
| "supported (JObj kvs) = list_all (\<lambda>kv. supported (snd kv)) kvs"
| "supported v = True"

text \<open>
  The order in which JavaScript enumerates the properties of an object: first those
  whose name is an array index (the decimal numeral, without leading zeros, of a number
  below \<open>2\<^sup>3\<^sup>2 - 1\<close>), by ascending number, then the others in the order in
  which they were created.
\<close>

definition is_array_index :: "string \<Rightarrow> bool" where
  "is_array_index k =
     (k \<noteq> [] \<and> list_all is_digit k \<and> (hd k = CHR ''0'' \<longrightarrow> length k = 1)
      \<and> int_of_digits k < 4294967295)"

definition own_keys_order :: "(string \<times> json) list \<Rightarrow> (string \<times> json) list" where
  "own_keys_order kvs =
     sort_key (\<lambda>kv. int_of_digits (fst kv)) (filter (\<lambda>kv. is_array_index (fst kv)) kvs)
     @ filter (\<lambda>kv. \<not> is_array_index (fst kv)) kvs"

text \<open>
  The double nearest to an integer of magnitude up to \<open>2\<^sup>5\<^sup>4\<close>. Up to \<open>2\<^sup>5\<^sup>3\<close>
  every integer is a double. From there to \<open>2\<^sup>5\<^sup>4\<close> the doubles are the even
  integers, and an odd integer, half way between two of them, goes to the one whose
  significand is even, which is the multiple of four.
\<close>

definition to_double :: "int \<Rightarrow> int" where
  "to_double i =
     (if \<bar>i\<bar> \<le> 9007199254740992 then i
      else if \<bar>i\<bar> mod 4 = 1 then i - sgn i
      else if \<bar>i\<bar> mod 4 = 3 then i + sgn i
      else i)"

text \<open>
  The value a JSON text denotes: a number is the double nearest to its numeral; an object
  gets its properties one by one as the text gives them, a property name that occurs
  again taking the later value and keeping its place, and holds them in enumeration
  order.
\<close>

fun normalise :: "json \<Rightarrow> json" where
  "normalise (JNum i) = JNum (to_double i)"
| "normalise (JArr xs) = JArr (map normalise xs)"
| "normalise (JObj kvs) =
     JObj (own_keys_order
             (fold (\<lambda>kv acc. AList.update (fst kv) (snd kv) acc)
                (map (\<lambda>kv. (fst kv, normalise (snd kv))) kvs) []))"
| "normalise v = v"

definition JSON_parse :: "string \<Rightarrow> error + json" where
  "JSON_parse s =
     (case parse_text s of
        Inl e \<Rightarrow> Inl e
      | Inr v \<Rightarrow> if supported v then Inr (normalise v) else Inl Unsupported)"

section \<open>The script \<open>epicshop/fix.js\<close>\<close>

text \<open>
  What the script does to the world, in order: the files it writes, the notifications it
  prints, the trees it removes and copies.
\<close>

datatype event =
    Written string string
  | Logged string
  | Removed string
  | Copied string string

record state =
  files :: filesystem
  trace :: "event list"

text \<open>
  \<open>dirname\<close> is \<open>__dirname\<close>, the absolute path of the directory holding the script.
\<close>

definition here :: "string \<Rightarrow> string \<Rightarrow> string" where
  "here dirname p = path_join [dirname, p]"

definition exists :: "filesystem \<Rightarrow> string \<Rightarrow> bool" where
  "exists fs p = (if p = [] then False else stat fs p \<noteq> None)"

definition readDir :: "filesystem \<Rightarrow> string \<Rightarrow> error + string list" where
  "readDir fs dir = (if exists fs dir then readdir fs dir else Inr [])"

definition workshopRoot :: "string \<Rightarrow> string" where
  "workshopRoot dirname = here dirname ''..''"

definition examples :: "string \<Rightarrow> filesystem \<Rightarrow> error + string list" where
  "examples dirname fs =
     (case readDir fs (here dirname ''../examples'') of
        Inl e \<Rightarrow> Inl e
      | Inr dirs \<Rightarrow> Inr (map (\<lambda>dir. here dirname (''../examples/'' @ dir)) dirs))"

text \<open>\<^verbatim>\<open>fs.statSync(filepath).isDirectory()\<close>, which throws when nothing is there.\<close>

definition isDirectory :: "filesystem \<Rightarrow> string \<Rightarrow> error + bool" where
  "isDirectory fs p =
     (case stat fs p of None \<Rightarrow> Inl ENOENT | Some e \<Rightarrow> Inr (e = Dir))"

fun filter_dirs :: "filesystem \<Rightarrow> string list \<Rightarrow> error + string list" where
  "filter_dirs fs [] = Inr []"
| "filter_dirs fs (p # ps) =
     (case isDirectory fs p of
        Inl e \<Rightarrow> Inl e
      | Inr b \<Rightarrow>
          (case filter_dirs fs ps of
             Inl e \<Rightarrow> Inl e
           | Inr qs \<Rightarrow> Inr (if b then p # qs else qs)))"

definition exercises :: "string \<Rightarrow> filesystem \<Rightarrow> error + string list" where
  "exercises dirname fs =
     (case readDir fs (here dirname ''../exercises'') of
        Inl e \<Rightarrow> Inl e
      | Inr names \<Rightarrow>
          filter_dirs fs (map (\<lambda>name. here dirname (''../exercises/'' @ name)) names))"

text \<open>The variants of one exercise: the callback of \<open>flatMap\<close>.\<close>

definition variants :: "filesystem \<Rightarrow> string \<Rightarrow> error + string list" where
  "variants fs exercise =
     (case readDir fs exercise of
        Inl e \<Rightarrow> Inl e
      | Inr dirs \<Rightarrow> Inr (map (\<lambda>dir. path_join [exercise, dir]) (filter matches_variant dirs)))"

fun all_variants :: "filesystem \<Rightarrow> string list \<Rightarrow> error + string list" where
  "all_variants fs [] = Inr []"
| "all_variants fs (exercise # rest) =
     (case variants fs exercise of
        Inl e \<Rightarrow> Inl e
      | Inr vs \<Rightarrow>
          (case all_variants fs rest of
             Inl e \<Rightarrow> Inl e
           | Inr ws \<Rightarrow> Inr (vs @ ws)))"

definition exerciseApps :: "string \<Rightarrow> filesystem \<Rightarrow> error + string list" where
  "exerciseApps dirname fs =
     (case exercises dirname fs of
        Inl e \<Rightarrow> Inl e
      | Inr exs \<Rightarrow> all_variants fs exs)"

definition exampleApps :: "string \<Rightarrow> filesystem \<Rightarrow> error + string list" where
  "exampleApps dirname fs =
     (case readDir fs (here dirname ''../examples'') of
        Inl e \<Rightarrow> Inl e
      | Inr dirs \<Rightarrow> Inr (map (\<lambda>dir. here dirname (''../examples/'' @ dir)) dirs))"

definition has_pkgjson :: "filesystem \<Rightarrow> string \<Rightarrow> bool" where
  "has_pkgjson fs app = exists fs (path_join [app, ''package.json''])"

text \<open>
  The lists the module computes before it changes anything: \<open>examples\<close>,
  \<open>exerciseApps\<close>, and \<open>appsWithPkgJson\<close>, which is
  \<^verbatim>\<open>[...examples, ...apps].filter(...)\<close> with \<^verbatim>\<open>apps = [...exampleApps, ...exerciseApps]\<close>.
\<close>

definition appsWithPkgJson :: "string \<Rightarrow> filesystem \<Rightarrow> error + string list" where
  "appsWithPkgJson dirname fs =
     (case examples dirname fs of
        Inl e \<Rightarrow> Inl e
      | Inr exa \<Rightarrow>
          (case exerciseApps dirname fs of
             Inl e \<Rightarrow> Inl e
           | Inr exe \<Rightarrow>
               (case exampleApps dirname fs of
                  Inl e \<Rightarrow> Inl e
                | Inr exa' \<Rightarrow> Inr (filter (has_pkgjson fs) (exa @ (exa' @ exe))))))"

definition relativeToWorkshopRoot :: "string \<Rightarrow> string \<Rightarrow> string" where
  "relativeToWorkshopRoot dirname dir = js_replace (workshopRoot dirname @ path_sep) [] dir"

text \<open>The name the script computes for the project directory \<open>file\<close>.\<close>

definition pkg_name :: "string \<Rightarrow> string \<Rightarrow> string" where
  "pkg_name dirname file = replace_seps (relativeToWorkshopRoot dirname file)"

text \<open>
  \<^verbatim>\<open>pkg.name = ...\<close> in strict mode (the script is a module): a property of an object
  is set in place, or added last; a property set on an array does not show in its JSON
  text; \<open>null\<close> and the primitive values have no properties to set.
\<close>

fun set_name :: "json \<Rightarrow> string \<Rightarrow> error + json" where
  "set_name (JObj kvs) n = Inr (JObj (AList.update ''name'' (JStr n) kvs))"
| "set_name (JArr xs) n = Inr (JArr xs)"
| "set_name v n = Inl TypeError"

definition writeIfNeeded :: "string \<Rightarrow> string \<Rightarrow> state \<Rightarrow> (error + bool) \<times> state" where
  "writeIfNeeded filepath content s =
     (case readFile (files s) filepath of
        Inl e \<Rightarrow> (Inl e, s)
      | Inr oldContent \<Rightarrow>
          if oldContent \<noteq> content then
            (case writeFile (files s) filepath content of
               Inl e \<Rightarrow> (Inl e, s)
             | Inr fs' \<Rightarrow>
                 (Inr True, s\<lparr>files := fs', trace := trace s @ [Written filepath content]\<rparr>))
          else (Inr False, s))"

text \<open>
  The text the script writes for the project \<open>file\<close> whose manifest holds \<open>text\<close>.
\<close>

definition new_content :: "string \<Rightarrow> string \<Rightarrow> string \<Rightarrow> error + string" where
  "new_content dirname file text =
     (case JSON_parse text of
        Inl e \<Rightarrow> Inl e
      | Inr pkg \<Rightarrow>
          (case set_name pkg (pkg_name dirname file) of
             Inl e \<Rightarrow> Inl e
           | Inr pkg' \<Rightarrow> Inr (JSON_stringify pkg' @ [CHR 0x0A])))"

text \<open>
  One round of the loop of \<open>updatePkgNames\<close>. The notification records the path of
  the manifest (the script prints it relative to the working directory). The result says
  whether the manifest was written.
\<close>

definition nameProject :: "string \<Rightarrow> string \<Rightarrow> state \<Rightarrow> (error + bool) \<times> state" where
  "nameProject dirname file s =
     (let pkgjsonPath = path_join [file, ''package.json'']
      in case readFile (files s) pkgjsonPath of
           Inl e \<Rightarrow> (Inl e, s)
         | Inr text \<Rightarrow>
             (case new_content dirname file text of
                Inl e \<Rightarrow> (Inl e, s)
              | Inr content \<Rightarrow>
                  (case writeIfNeeded pkgjsonPath content s of
                     (Inl e, s') \<Rightarrow> (Inl e, s')
                   | (Inr written, s') \<Rightarrow>
                       if written
                       then (Inr True, s'\<lparr>trace := trace s' @ [Logged pkgjsonPath]\<rparr>)
                       else (Inr False, s'))))"

fun updatePkgNames :: "string \<Rightarrow> string list \<Rightarrow> state \<Rightarrow> error option \<times> state" where
  "updatePkgNames dirname [] s = (None, s)"
| "updatePkgNames dirname (file # rest) s =
     (case nameProject dirname file s of
        (Inl e, s') \<Rightarrow> (Some e, s')
      | (Inr written, s') \<Rightarrow> updatePkgNames dirname rest s')"

text \<open>One round of the loop of \<open>copyTestFiles\<close>.\<close>

definition mirrorTests :: "string \<Rightarrow> state \<Rightarrow> error option \<times> state" where
  "mirrorTests app s =
     (if js_includes app ''problem'' then
        let solutionApp = js_replace ''problem'' ''solution'' app;
            testDir = path_join [solutionApp, ''tests''];
            destTestDir = path_join [app, ''tests'']
        in if exists (files s) testDir then
             let s1 = (if exists (files s) destTestDir
                       then s\<lparr>files := rm (files s) destTestDir,
                              trace := trace s @ [Removed destTestDir]\<rparr>
                       else s)
             in (case cp (files s1) testDir destTestDir of
                   Inl e \<Rightarrow> (Some e, s1)
                 | Inr fs' \<Rightarrow>
                     (None, s1\<lparr>files := fs', trace := trace s1 @ [Copied testDir destTestDir]\<rparr>))
           else (None, s)
      else (None, s))"

fun copyTestFiles :: "string list \<Rightarrow> state \<Rightarrow> error option \<times> state" where
  "copyTestFiles [] s = (None, s)"
| "copyTestFiles (app # rest) s =
     (case mirrorTests app s of
        (Some e, s') \<Rightarrow> (Some e, s')
      | (None, s') \<Rightarrow> copyTestFiles rest s')"

text \<open>
  The whole module: the lists are computed from the filesystem as it is at the start,
  then \<open>updatePkgNames\<close> runs, then \<open>copyTestFiles\<close>. An error ends the run where
  it is raised.
\<close>

definition main :: "string \<Rightarrow> state \<Rightarrow> error option \<times> state" where
  "main dirname s =
     (case appsWithPkgJson dirname (files s) of
        Inl e \<Rightarrow> (Some e, s)
      | Inr apps \<Rightarrow>
          (case exerciseApps dirname (files s) of
             Inl e \<Rightarrow> (Some e, s)
           | Inr exe \<Rightarrow>
               (case updatePkgNames dirname apps s of
                  (Some e, s') \<Rightarrow> (Some e, s')
                | (None, s') \<Rightarrow> copyTestFiles exe s')))"

section \<open>Well-formed paths and filesystems\<close>

text \<open>An absolute path: \<open>__dirname\<close> is one.\<close>

definition is_absolute :: "string \<Rightarrow> bool" where
  "is_absolute p = (p \<noteq> [] \<and> hd p = CHR ''/'')"

text \<open>
  A normalized absolute path other than the root: a slash, then segments separated by
  single slashes, none of them empty, \<open>.\<close> or \<open>..\<close>.
\<close>

definition clean :: "string \<Rightarrow> bool" where
  "clean p =
     (case p of
        [] \<Rightarrow> False
      | c # rest \<Rightarrow> c = CHR ''/'' \<and> list_all proper_name (split_on CHR ''/'' rest))"

text \<open>The segments of the workshop root, last one first.\<close>

definition root_stack :: "string \<Rightarrow> string list" where
  "root_stack dirname = normalize_segs False [] (split_on CHR ''/'' dirname @ [''..''])"

text \<open>The proper ancestors of a path: what stands before each of its slashes but the first.\<close>

definition ancestors :: "string \<Rightarrow> string list" where
  "ancestors k = map (\<lambda>i. take i k) (filter (\<lambda>i. k ! i = CHR ''/'') [1..<length k])"

text \<open>
  A well-formed filesystem: no path is entered twice, every path is normalized, and
  every ancestor of an entry is a directory of the table.
\<close>

definition wf_fs :: "filesystem \<Rightarrow> bool" where
  "wf_fs fs =
     (distinct (map fst fs)
      \<and> list_all (\<lambda>(k, e). clean k \<and> list_all (\<lambda>p. map_of fs p = Some Dir) (ancestors k)) fs)"

section \<open>Traces\<close>

definition is_naming_event :: "event \<Rightarrow> bool" where
  "is_naming_event e = (case e of Written p c \<Rightarrow> True | Logged p \<Rightarrow> True | _ \<Rightarrow> False)"

definition is_mirror_event :: "event \<Rightarrow> bool" where
  "is_mirror_event e = (case e of Removed p \<Rightarrow> True | Copied p q \<Rightarrow> True | _ \<Rightarrow> False)"

text \<open>The events about the manifest at \<open>p\<close>: its writes and its notifications.\<close>

definition writes_to :: "string \<Rightarrow> event list \<Rightarrow> event list" where
  "writes_to p t = filter (\<lambda>e. case e of Written q c \<Rightarrow> q = p | _ \<Rightarrow> False) t"

definition logs_of :: "string \<Rightarrow> event list \<Rightarrow> event list" where
  "logs_of p t = filter (\<lambda>e. e = Logged p) t"

section \<open>Well-formed JSON values\<close>

text \<open>
  The values \<open>JSON_parse\<close> returns: supported, every number a double, and every
  object with its properties in enumeration order, no name twice.
\<close>

fun wf_json :: "json \<Rightarrow> bool" where
  "wf_json (JNum i) = (\<bar>i\<bar> \<le> 18014398509481984 \<and> to_double i = i)"
| "wf_json (JArr xs) = list_all wf_json xs"
| "wf_json (JObj kvs) =
     (distinct (map fst kvs) \<and> own_keys_order kvs = kvs
      \<and> list_all (\<lambda>kv. wf_json (snd kv)) kvs)"
| "wf_json v = True"

text \<open>Fuel that is enough to read back the text of a value.\<close>

fun fuel_v :: "json \<Rightarrow> nat" where
  "fuel_v (JArr xs) = Suc (sum_list (map (\<lambda>x. Suc (fuel_v x)) xs))"
| "fuel_v (JObj kvs) = Suc (sum_list (map (\<lambda>kv. Suc (fuel_v (snd kv))) kvs))"
| "fuel_v v = Suc 0"

text \<open>What may follow a value in the text \<open>JSON_stringify\<close> writes.\<close>

definition delim :: "string \<Rightarrow> bool" where
  "delim rest = (rest = [] \<or> hd rest = CHR '','' \<or> hd rest = CHR 0x0A)"

definition starts_value :: "string \<Rightarrow> bool" where
  "starts_value s = (s \<noteq> [] \<and> hd s \<in> set (''ntf-0123456789[{'' @ [CHR 0x22]))"

text \<open>
  The manifest of a project is settled when the text the script computes for it is the
  text it holds.
\<close>

definition settled :: "string \<Rightarrow> string \<Rightarrow> filesystem \<Rightarrow> bool" where
  "settled dirname file fs =
     (case readFile fs (path_join [file, ''package.json'']) of
        Inl e \<Rightarrow> False
      | Inr c \<Rightarrow> new_content dirname file c = Inr c)"

section \<open>Paths\<close>

lemma split_on_nonempty [simp]: "split_on d s \<noteq> []"
  by (induction s) (auto split: list.splits)

lemma split_on_append: "split_on d (a @ d # b) = split_on d a @ split_on d b"
  by (induction a) (auto split: list.splits)

lemma split_on_no_sep: "d \<notin> set s \<Longrightarrow> split_on d s = [s]"
  by (induction s) (auto split: list.splits)

lemma split_on_segments: "x \<in> set (split_on d s) \<Longrightarrow> d \<notin> set x"
  by (induction s arbitrary: x) (auto split: list.splits if_splits)

lemma join_split: "join_with [d] (split_on d s) = s"
proof (induction s)
  case Nil
  then show ?case by simp
next
  case (Cons c s)
  then show ?case
    by (cases "split_on d s"; cases "tl (split_on d s)") (auto split: list.splits)
qed

lemma join_with_append:
  "xs \<noteq> [] \<Longrightarrow> ys \<noteq> [] \<Longrightarrow> join_with d (xs @ ys) = join_with d xs @ d @ join_with d ys"
  by (induction d xs rule: join_with.induct) (auto simp: neq_Nil_conv)

lemma join_with_snoc: "xs \<noteq> [] \<Longrightarrow> join_with d (xs @ [y]) = join_with d xs @ d @ y"
  by (simp add: join_with_append)

lemma normalize_segs_append:
  "normalize_segs a st (xs @ ys) = normalize_segs a (normalize_segs a st xs) ys"
  by (induction a st xs rule: normalize_segs.induct) (auto split: list.splits)

lemma proper_name_simps:
  "proper_name n \<Longrightarrow> n \<noteq> [] \<and> n \<noteq> ''.'' \<and> n \<noteq> ''..'' \<and> CHR ''/'' \<notin> set n"
  by (simp add: proper_name_def)

lemma normalize_segs_proper:
  "list_all proper_name xs \<Longrightarrow> normalize_segs a st xs = rev xs @ st"
  by (induction xs arbitrary: st) (auto simp: proper_name_def)

lemma normalize_segs_keeps_proper:
  "list_all proper_name st \<Longrightarrow> list_all (\<lambda>x. CHR ''/'' \<notin> set x) xs
   \<Longrightarrow> list_all proper_name (normalize_segs False st xs)"
  by (induction False st xs rule: normalize_segs.induct) (auto simp: proper_name_def split: list.splits)

lemma join_with_eq_Nil: "list_all (\<lambda>x. x \<noteq> []) xs \<Longrightarrow> join_with d xs = [] \<longleftrightarrow> xs = []"
  by (induction d xs rule: join_with.induct) auto

lemma join_with_last_nonempty: "xs \<noteq> [] \<Longrightarrow> last xs \<noteq> [] \<Longrightarrow> join_with d xs \<noteq> []"
  by (induction d xs rule: join_with.induct) auto

lemma last_join_with: "xs \<noteq> [] \<Longrightarrow> last xs \<noteq> [] \<Longrightarrow> last (join_with d xs) = last (last xs)"
  by (induction d xs rule: join_with.induct) (auto simp: join_with_last_nonempty)

lemma clean_normalize: "clean p \<Longrightarrow> path_normalize p = p"
proof -
  assume c: "clean p"
  then obtain rest where p: "p = CHR ''/'' # rest" and pr: "list_all proper_name (split_on CHR ''/'' rest)"
    by (auto simp: clean_def split: list.splits)
  let ?segs = "split_on CHR ''/'' rest"
  have ne: "list_all (\<lambda>x. x \<noteq> []) ?segs"
    using pr by (auto simp: list_all_iff proper_name_def)
  have "last ?segs \<noteq> []" using ne by (simp add: list_all_iff)
  then have l: "last rest = last (last ?segs)" and rne: "rest \<noteq> []"
    using last_join_with[of ?segs "''/''"] join_with_last_nonempty[of ?segs "''/''"]
    by (simp_all add: join_split)
  have "last ?segs \<in> set ?segs" by simp
  then have "CHR ''/'' \<notin> set (last ?segs)" by (rule split_on_segments)
  with \<open>last ?segs \<noteq> []\<close> have "last (last ?segs) \<noteq> CHR ''/''"
    using last_in_set by metis
  with l rne have tr: "last p \<noteq> CHR ''/''" by (simp add: p)
  have "normalize_segs False [] (split_on CHR ''/'' p) = rev ?segs"
    using normalize_segs_proper[OF pr, of False "[]"] by (simp add: p)
  then show ?thesis
    using tr rne by (simp add: path_normalize_def p join_split Let_def)
qed

lemma clean_join:
  assumes "clean p" "proper_name n"
  shows "path_join [p, n] = p @ ''/'' @ n" and "clean (p @ ''/'' @ n)"
proof -
  from assms(1) obtain rest where p: "p = CHR ''/'' # rest" and pr: "list_all proper_name (split_on CHR ''/'' rest)"
    by (auto simp: clean_def split: list.splits)
  have "split_on CHR ''/'' (rest @ CHR ''/'' # n) = split_on CHR ''/'' rest @ [n]"
    using assms(2) by (simp add: split_on_append split_on_no_sep proper_name_def)
  then show c: "clean (p @ ''/'' @ n)"
    using pr assms(2) by (simp add: clean_def p)
  have "n \<noteq> []" using assms(2) by (simp add: proper_name_def)
  then show "path_join [p, n] = p @ ''/'' @ n"
    using clean_normalize[OF c] by (simp add: path_join_def p)
qed

lemma js_replace_form:
  "js_includes s pat \<Longrightarrow> \<exists>pre post. s = pre @ pat @ post \<and> js_replace pat rep s = pre @ rep @ post"
proof (induction s)
  case Nil
  then show ?case by simp
next
  case (Cons c s)
  show ?case
  proof (cases "prefix pat (c # s)")
    case True
    then obtain post where eq: "c # s = pat @ post" by (auto simp: prefix_def)
    from True have "js_replace pat rep (c # s) = rep @ drop (length pat) (c # s)" by simp
    also have "drop (length pat) (c # s) = post" by (simp add: eq)
    finally have "js_replace pat rep (c # s) = [] @ rep @ post" by simp
    with eq show ?thesis by (metis append_Nil)
  next
    case False
    with Cons obtain pre post where "s = pre @ pat @ post" "js_replace pat rep s = pre @ rep @ post"
      by auto
    with False show ?thesis by (intro exI[of _ "c # pre"] exI[of _ post]) simp
  qed
qed

lemma js_replace_absent: "\<not> js_includes s pat \<Longrightarrow> js_replace pat rep s = s"
  by (induction s) auto

lemma js_replace_prefix: "pat \<noteq> [] \<Longrightarrow> js_replace pat rep (pat @ s) = rep @ s"
  by (cases pat) auto

lemma split_on_mid:
  "d \<notin> set x \<Longrightarrow>
   split_on d (a @ x @ b) =
     butlast (split_on d a) @ [last (split_on d a) @ x @ hd (split_on d b)] @ tl (split_on d b)"
proof (induction a)
  case Nil
  then show ?case
  proof (induction x)
    case Nil
    then show ?case by (cases "split_on d b") (auto simp: split_on_nonempty)
  next
    case (Cons c x)
    then show ?case by (auto split: list.splits)
  qed
next
  case (Cons c a)
  then show ?case by (auto split: list.splits simp: split_on_nonempty)
qed

lemma clean_replace:
  assumes "clean p" "js_includes p ''problem''"
  shows "clean (js_replace ''problem'' ''solution'' p)"
proof -
  from js_replace_form[OF assms(2), of "''solution''"] obtain pre post where
    p: "p = pre @ ''problem'' @ post" and r: "js_replace ''problem'' ''solution'' p = pre @ ''solution'' @ post"
    by blast
  from assms(1) p obtain pre' where pre: "pre = CHR ''/'' # pre'"
    by (cases pre) (auto simp: clean_def)
  let ?A = "split_on CHR ''/'' pre'" and ?B = "split_on CHR ''/'' post"
  have all: "list_all proper_name (butlast ?A @ [last ?A @ ''problem'' @ hd ?B] @ tl ?B)"
    using assms(1) split_on_mid[of "CHR ''/''" "''problem''" pre' post]
    by (simp add: clean_def p pre)
  have "last ?A \<in> set ?A" "hd ?B \<in> set ?B" by (simp_all add: split_on_nonempty)
  then have "CHR ''/'' \<notin> set (last ?A)" "CHR ''/'' \<notin> set (hd ?B)"
    using split_on_segments by blast+
  then have "proper_name (last ?A @ ''solution'' @ hd ?B)"
    by (auto simp: proper_name_def append_eq_Cons_conv)
  with all have "list_all proper_name (butlast ?A @ [last ?A @ ''solution'' @ hd ?B] @ tl ?B)"
    by simp
  then show ?thesis
    using split_on_mid[of "CHR ''/''" "''solution''" pre' post]
    by (simp add: clean_def r pre)
qed

lemma split_join:
  "xs \<noteq> [] \<Longrightarrow> list_all (\<lambda>x. d \<notin> set x) xs \<Longrightarrow> split_on d (join_with [d] xs) = xs"
proof (induction "[d]" xs rule: join_with.induct)
  case 1
  then show ?case by simp
next
  case (2 x)
  then show ?case by (simp add: split_on_no_sep)
next
  case (3 x y ys)
  then show ?case
    using split_on_append[of d x "join_with [d] (y # ys)"] by (simp add: split_on_no_sep)
qed

lemma root_stack_proper: "list_all proper_name (root_stack dirname)"
  unfolding root_stack_def
  by (rule normalize_segs_keeps_proper) (auto simp: list_all_iff dest: split_on_segments)

lemma join_proper_nonempty:
  "list_all proper_name xs \<Longrightarrow> xs \<noteq> [] \<Longrightarrow> join_with d xs \<noteq> []"
  by (rule join_with_last_nonempty) (auto simp: list_all_iff proper_name_def)

lemma workshopRoot_form:
  assumes "is_absolute dirname"
  shows "workshopRoot dirname =
           (if root_stack dirname = [] then ''/'' else ''/'' @ join_with ''/'' (rev (root_stack dirname)))"
proof -
  have sp: "split_on CHR ''/'' (dirname @ ''/..'') = split_on CHR ''/'' dirname @ [''..'']"
    using split_on_append[of "CHR ''/''" dirname "''..''"] by (simp add: split_on_no_sep)
  have pr: "list_all proper_name (rev (root_stack dirname))"
    using root_stack_proper by simp
  have "join_with ''/'' (rev (root_stack dirname)) = [] \<longleftrightarrow> root_stack dirname = []"
    using join_proper_nonempty[OF pr] by auto
  then show ?thesis
    using assms
    by (auto simp: workshopRoot_def here_def path_join_def path_normalize_def is_absolute_def
        sp root_stack_def Let_def)
qed

lemma dir_prefix_workshopRoot:
  assumes "is_absolute dirname"
  shows "dir_prefix (workshopRoot dirname) =
           (if root_stack dirname = [] then ''/'' else ''/'' @ join_with ''/'' (rev (root_stack dirname)) @ ''/'')"
proof -
  have pr: "list_all proper_name (rev (root_stack dirname))"
    using root_stack_proper by simp
  show ?thesis
    using join_proper_nonempty[OF pr] by (auto simp: workshopRoot_form[OF assms] dir_prefix_def)
qed

lemma here_form:
  assumes "is_absolute dirname" "list_all proper_name segs" "segs \<noteq> []"
  shows "here dirname (''../'' @ join_with ''/'' segs)
           = dir_prefix (workshopRoot dirname) @ join_with ''/'' segs"
    and "clean (dir_prefix (workshopRoot dirname) @ join_with ''/'' segs)"
proof -
  let ?S = "root_stack dirname"
  have nosl: "list_all (\<lambda>x. CHR ''/'' \<notin> set x) segs"
    using assms(2) by (auto simp: list_all_iff proper_name_def)
  have jne: "join_with ''/'' segs \<noteq> []"
    using join_proper_nonempty[OF assms(2,3)] .
  have sp: "split_on CHR ''/'' (dirname @ ''/'' @ ''../'' @ join_with ''/'' segs)
              = split_on CHR ''/'' dirname @ [''..''] @ segs"
    using split_on_append[of "CHR ''/''" dirname "''../'' @ join_with ''/'' segs"]
      split_on_append[of "CHR ''/''" "''..''" "join_with ''/'' segs"]
      split_join[OF assms(3) nosl]
    by (simp add: split_on_no_sep)
  have ns: "normalize_segs False [] (split_on CHR ''/'' dirname @ [''..''] @ segs) = rev segs @ ?S"
    using normalize_segs_append[of False "[]" "split_on CHR ''/'' dirname @ [''..'']" segs]
      normalize_segs_proper[OF assms(2)]
    by (simp add: root_stack_def)
  have all: "list_all proper_name (rev ?S @ segs)"
    using root_stack_proper assms(2) by simp
  have ne: "rev ?S @ segs \<noteq> []" using assms(3) by simp
  have lastne: "last segs \<noteq> []" "CHR ''/'' \<notin> set (last segs)"
    using assms(2,3) by (auto simp: list_all_iff proper_name_def)
  have "last (join_with ''/'' segs) = last (last segs)"
    using last_join_with[OF assms(3) lastne(1)] .
  then have tr: "last (join_with ''/'' segs) \<noteq> CHR ''/''"
    using lastne last_in_set by metis
  have q: "join_with ''/'' (rev ?S @ segs)
            = (if ?S = [] then join_with ''/'' segs
               else join_with ''/'' (rev ?S) @ ''/'' @ join_with ''/'' segs)"
    using assms(3) by (simp add: join_with_append)
  have "here dirname (''../'' @ join_with ''/'' segs) = ''/'' @ join_with ''/'' (rev ?S @ segs)"
    using assms(1) jne tr join_proper_nonempty[OF all ne]
    by (simp add: here_def path_join_def path_normalize_def is_absolute_def sp[simplified] ns[simplified] Let_def)
  then show "here dirname (''../'' @ join_with ''/'' segs)
           = dir_prefix (workshopRoot dirname) @ join_with ''/'' segs"
    by (simp add: q dir_prefix_workshopRoot[OF assms(1)])
  have nosl2: "list_all (\<lambda>x. CHR ''/'' \<notin> set x) (rev ?S @ segs)"
    using all by (auto simp: list_all_iff proper_name_def)
  have "clean (''/'' @ join_with ''/'' (rev ?S @ segs))"
    using split_join[OF ne nosl2] all by (simp add: clean_def)
  then show "clean (dir_prefix (workshopRoot dirname) @ join_with ''/'' segs)"
    by (auto simp: q dir_prefix_workshopRoot[OF assms(1)] split: if_splits)
qed

section \<open>The path classifier\<close>

lemma readdir_names:
  "readdir fs d = Inr ns \<Longrightarrow> n \<in> set ns \<Longrightarrow> proper_name n \<and> dir_prefix d @ n \<in> fst ` set fs"
  by (auto simp: readdir_def Let_def child_name_def prefix_def
      split: option.splits entry.splits if_splits)
     (force+)

lemma readDir_names:
  "readDir fs d = Inr ns \<Longrightarrow> n \<in> set ns \<Longrightarrow> proper_name n \<and> dir_prefix d @ n \<in> fst ` set fs"
  using readdir_names by (auto simp: readDir_def split: if_splits)

lemma exampleApps_eq: "exampleApps dirname fs = examples dirname fs"
  by (simp add: exampleApps_def examples_def)

lemma proper_name_examples [simp]: "proper_name ''examples''" "proper_name ''exercises''"
  by (simp_all add: proper_name_def)

lemma examples_form:
  assumes "is_absolute dirname" "examples dirname fs = Inr exa" "p \<in> set exa"
  shows "\<exists>d. proper_name d \<and> p = dir_prefix (workshopRoot dirname) @ ''examples/'' @ d"
proof -
  from assms(2,3) obtain ns d where ns: "readDir fs (here dirname ''../examples'') = Inr ns"
    and d: "d \<in> set ns" and p: "p = here dirname (''../examples/'' @ d)"
    by (auto simp: examples_def split: sum.splits)
  have pd: "proper_name d" using readDir_names[OF ns d] by simp
  have "here dirname (''../'' @ join_with ''/'' [''examples'', d])
          = dir_prefix (workshopRoot dirname) @ join_with ''/'' [''examples'', d]"
    by (rule here_form) (use assms(1) pd in simp_all)
  then show ?thesis using pd p by auto
qed

lemma filter_dirs_eq:
  "filter_dirs fs ps = Inr qs \<Longrightarrow> qs = filter (\<lambda>p. stat fs p = Some Dir) ps"
  by (induction ps arbitrary: qs) (auto simp: isDirectory_def split: sum.splits option.splits)

lemma exercises_form:
  assumes "is_absolute dirname" "exercises dirname fs = Inr exs" "p \<in> set exs"
  shows "\<exists>e. proper_name e \<and> p = dir_prefix (workshopRoot dirname) @ ''exercises/'' @ e
            \<and> stat fs p = Some Dir"
proof -
  from assms(2) obtain ns where ns: "readDir fs (here dirname ''../exercises'') = Inr ns"
    and f: "filter_dirs fs (map (\<lambda>name. here dirname (''../exercises/'' @ name)) ns) = Inr exs"
    by (auto simp: exercises_def split: sum.splits)
  from filter_dirs_eq[OF f] assms(3) obtain e where e: "e \<in> set ns"
    and p: "p = here dirname (''../exercises/'' @ e)" and dir: "stat fs p = Some Dir"
    by auto
  have pe: "proper_name e" using readDir_names[OF ns e] by simp
  have "here dirname (''../'' @ join_with ''/'' [''exercises'', e])
          = dir_prefix (workshopRoot dirname) @ join_with ''/'' [''exercises'', e]"
    by (rule here_form) (use assms(1) pe in simp_all)
  then show ?thesis using pe p dir by auto
qed

lemma all_variants_member:
  "all_variants fs exs = Inr ws \<Longrightarrow> w \<in> set ws
   \<Longrightarrow> \<exists>x \<in> set exs. \<exists>vs. variants fs x = Inr vs \<and> w \<in> set vs"
  by (induction exs arbitrary: ws) (auto split: sum.splits)

lemma exerciseApps_form:
  assumes "is_absolute dirname" "exerciseApps dirname fs = Inr exe" "p \<in> set exe"
  shows "\<exists>e v. proper_name e \<and> proper_name v \<and> matches_variant v
            \<and> p = dir_prefix (workshopRoot dirname) @ ''exercises/'' @ e @ ''/'' @ v"
proof -
  from assms(2) obtain exs where exs: "exercises dirname fs = Inr exs"
    and av: "all_variants fs exs = Inr exe"
    by (auto simp: exerciseApps_def split: sum.splits)
  from all_variants_member[OF av assms(3)] obtain x vs where x: "x \<in> set exs"
    and vs: "variants fs x = Inr vs" and p: "p \<in> set vs" by blast
  from exercises_form[OF assms(1) exs x] obtain e where pe: "proper_name e"
    and xe: "x = dir_prefix (workshopRoot dirname) @ ''exercises/'' @ e" by blast
  from vs p obtain ns v where ns: "readDir fs x = Inr ns" and v: "v \<in> set ns"
    and mv: "matches_variant v" and pv: "p = path_join [x, v]"
    by (auto simp: variants_def split: sum.splits)
  have pv': "proper_name v" using readDir_names[OF ns v] by simp
  have "clean (dir_prefix (workshopRoot dirname) @ join_with ''/'' [''exercises'', e])"
    by (rule here_form) (use assms(1) pe in simp_all)
  then have "clean x" by (simp add: xe)
  from clean_join(1)[OF this pv'] show ?thesis
    using pe pv' mv pv xe by auto
qed

lemma appsWithPkgJson_eq:
  "appsWithPkgJson dirname fs = Inr apps \<Longrightarrow>
   \<exists>exa exe. examples dirname fs = Inr exa \<and> exerciseApps dirname fs = Inr exe
     \<and> apps = filter (has_pkgjson fs) (exa @ exa @ exe)"
  by (auto simp: appsWithPkgJson_def exampleApps_eq split: sum.splits)


section \<open>What the two loops do\<close>

lemma writeIfNeeded_cases:
  assumes "writeIfNeeded p c s = (r, s')"
  shows "(s' = s \<and> r \<noteq> Inr True)
       \<or> (r = Inr True \<and> (\<exists>old. readFile (files s) p = Inr old \<and> old \<noteq> c) \<and> valid_utf8 c
          \<and> s' = s\<lparr>files := AList.update p (File c) (files s), trace := trace s @ [Written p c]\<rparr>)"
  using assms
  by (auto simp: writeIfNeeded_def writeFile_def readFile_def
      split: sum.splits if_splits option.splits entry.splits)

lemma nameProject_cases:
  assumes "nameProject dirname file s = (r, s')"
  shows "(s' = s \<and> r \<noteq> Inr True)
       \<or> (r = Inr True
          \<and> (\<exists>old c. readFile (files s) (path_join [file, ''package.json'']) = Inr old
                \<and> new_content dirname file old = Inr c \<and> old \<noteq> c \<and> valid_utf8 c
                \<and> s' = s\<lparr>files := AList.update (path_join [file, ''package.json'']) (File c) (files s),
                          trace := trace s @ [Written (path_join [file, ''package.json'']) c,
                                              Logged (path_join [file, ''package.json''])]\<rparr>))"
proof -
  let ?p = "path_join [file, ''package.json'']"
  show ?thesis
  proof (cases "readFile (files s) ?p")
    case (Inl e)
    with assms show ?thesis by (auto simp: nameProject_def)
  next
    case (Inr old)
    show ?thesis
    proof (cases "new_content dirname file old")
      case (Inl e)
      with assms Inr show ?thesis by (auto simp: nameProject_def)
    next
      case c: (Inr c)
      obtain r1 s1 where w: "writeIfNeeded ?p c s = (r1, s1)" by force
      from writeIfNeeded_cases[OF w] assms Inr c w show ?thesis
        by (auto simp: nameProject_def split: sum.splits if_splits)
    qed
  qed
qed

lemma nameProject_trace:
  assumes "nameProject dirname file s = (r, s')"
  shows "\<exists>t. trace s' = trace s @ t \<and> list_all is_naming_event t
           \<and> (\<forall>e\<in>set t. e = Logged (path_join [file, ''package.json''])
                 \<or> (\<exists>c. e = Written (path_join [file, ''package.json'']) c))"
  using nameProject_cases[OF assms] by (auto simp: is_naming_event_def)

lemma updatePkgNames_trace:
  "updatePkgNames dirname apps s = (r, s') \<Longrightarrow>
   \<exists>t. trace s' = trace s @ t \<and> list_all is_naming_event t
     \<and> (\<forall>e\<in>set t. \<exists>f\<in>set apps. e = Logged (path_join [f, ''package.json''])
                 \<or> (\<exists>c. e = Written (path_join [f, ''package.json'']) c))"
proof (induction apps arbitrary: s)
  case Nil
  then show ?case by simp
next
  case (Cons f rest)
  obtain r1 s1 where n: "nameProject dirname f s = (r1, s1)" by force
  from nameProject_trace[OF n] obtain t1 where t1: "trace s1 = trace s @ t1"
    "list_all is_naming_event t1"
    "\<forall>e\<in>set t1. e = Logged (path_join [f, ''package.json''])
                 \<or> (\<exists>c. e = Written (path_join [f, ''package.json'']) c)" by blast
  show ?case
  proof (cases r1)
    case (Inl e)
    with Cons.prems n have "s' = s1" by simp
    with t1 show ?thesis by auto
  next
    case (Inr b)
    with Cons.prems n have "updatePkgNames dirname rest s1 = (r, s')" by simp
    from Cons.IH[OF this] obtain t2 where t2: "trace s' = trace s1 @ t2"
      "list_all is_naming_event t2"
      "\<forall>e\<in>set t2. \<exists>f\<in>set rest. e = Logged (path_join [f, ''package.json''])
                 \<or> (\<exists>c. e = Written (path_join [f, ''package.json'']) c)" by blast
    have "trace s' = trace s @ (t1 @ t2)" using t1 t2 by simp
    moreover have "list_all is_naming_event (t1 @ t2)" using t1 t2 by simp
    moreover have "\<forall>e\<in>set (t1 @ t2). \<exists>f\<in>set (f # rest). e = Logged (path_join [f, ''package.json''])
                 \<or> (\<exists>c. e = Written (path_join [f, ''package.json'']) c)"
      using t1(3) t2(3) by auto
    ultimately show ?thesis by blast
  qed
qed

lemma mirrorTests_trace:
  "mirrorTests app s = (r, s') \<Longrightarrow> \<exists>t. trace s' = trace s @ t \<and> list_all is_mirror_event t"
  by (auto simp: mirrorTests_def Let_def is_mirror_event_def split: if_splits sum.splits)

lemma copyTestFiles_trace:
  "copyTestFiles apps s = (r, s') \<Longrightarrow> \<exists>t. trace s' = trace s @ t \<and> list_all is_mirror_event t"
proof (induction apps arbitrary: s)
  case Nil
  then show ?case by simp
next
  case (Cons a rest)
  obtain r1 s1 where m: "mirrorTests a s = (r1, s1)" by force
  from mirrorTests_trace[OF m] obtain t1 where t1: "trace s1 = trace s @ t1" "list_all is_mirror_event t1"
    by blast
  show ?case
  proof (cases r1)
    case None
    with Cons.prems m have "copyTestFiles rest s1 = (r, s')" by simp
    from Cons.IH[OF this] obtain t2 where "trace s' = trace s1 @ t2" "list_all is_mirror_event t2"
      by blast
    with t1 have "trace s' = trace s @ (t1 @ t2) \<and> list_all is_mirror_event (t1 @ t2)" by simp
    then show ?thesis by blast
  next
    case (Some e)
    with Cons.prems m have "s' = s1" by simp
    with t1 show ?thesis by blast
  qed
qed


lemma update_same: "map_of al k = Some v \<Longrightarrow> AList.update k v al = al"
  by (induction al) (auto split: if_splits)


section \<open>Projects and well-formed filesystems\<close>

lemma appsWithPkgJson_has_pkgjson:
  "appsWithPkgJson dirname fs = Inr apps \<Longrightarrow> f \<in> set apps \<Longrightarrow> has_pkgjson fs f"
  by (auto dest!: appsWithPkgJson_eq)


lemma ancestors_member: "a \<noteq> [] \<Longrightarrow> a \<in> set (ancestors (a @ CHR ''/'' # n))"
proof -
  assume "a \<noteq> []"
  then have "1 \<le> length a" by (cases a) auto
  moreover have "(a @ CHR ''/'' # n) ! length a = CHR ''/''" by simp
  ultimately have "length a \<in> set (filter (\<lambda>i. (a @ CHR ''/'' # n) ! i = CHR ''/'') [1..<length (a @ CHR ''/'' # n)])"
    by simp
  then have "take (length a) (a @ CHR ''/'' # n) \<in> set (ancestors (a @ CHR ''/'' # n))"
    unfolding ancestors_def by (metis (no_types, lifting) image_eqI set_map)
  then show ?thesis by simp
qed

lemma clean_not_root: "clean p \<Longrightarrow> p \<noteq> ''/'' \<and> p \<noteq> []"
  by (auto simp: clean_def proper_name_def)

lemma wf_fs_parent_dir:
  assumes "wf_fs fs" "clean a" "stat fs (a @ CHR ''/'' # n) \<noteq> None"
  shows "stat fs a = Some Dir"
proof -
  have "a @ CHR ''/'' # n \<noteq> ''/''"
    using clean_not_root[OF assms(2)] by (cases a) auto
  with assms(3) obtain e where "map_of fs (a @ CHR ''/'' # n) = Some e"
    by (auto simp: stat_def)
  then have "(a @ CHR ''/'' # n, e) \<in> set fs" by (rule map_of_SomeD)
  with assms(1) have "list_all (\<lambda>p. map_of fs p = Some Dir) (ancestors (a @ CHR ''/'' # n))"
    by (auto simp: wf_fs_def list_all_iff)
  with ancestors_member[of a n] clean_not_root[OF assms(2)] show ?thesis
    by (auto simp: list_all_iff stat_def)
qed

lemma apps_clean:
  assumes "is_absolute dirname" "appsWithPkgJson dirname fs = Inr apps" "a \<in> set apps"
  shows "clean a"
proof -
  from appsWithPkgJson_eq[OF assms(2)] obtain exa exe where
    exa: "examples dirname fs = Inr exa" and exe: "exerciseApps dirname fs = Inr exe"
    and apps: "apps = filter (has_pkgjson fs) (exa @ exa @ exe)" by blast
  from assms(3) apps consider "a \<in> set exa" | "a \<in> set exe" by auto
  then show ?thesis
  proof cases
    case 1
    from examples_form[OF assms(1) exa 1] obtain d where d: "proper_name d"
      "a = dir_prefix (workshopRoot dirname) @ ''examples/'' @ d" by blast
    have "clean (dir_prefix (workshopRoot dirname) @ join_with ''/'' [''examples'', d])"
      by (rule here_form) (use assms(1) d in simp_all)
    with d show ?thesis by simp
  next
    case 2
    from exerciseApps_form[OF assms(1) exe 2] obtain e v where ev: "proper_name e" "proper_name v"
      "a = dir_prefix (workshopRoot dirname) @ ''exercises/'' @ e @ ''/'' @ v" by blast
    have "clean (dir_prefix (workshopRoot dirname) @ join_with ''/'' [''exercises'', e, v])"
      by (rule here_form) (use assms(1) ev in simp_all)
    with ev show ?thesis by simp
  qed
qed


section \<open>Removing and copying trees\<close>

lemma under_append: "under p k \<Longrightarrow> \<exists>r. k = p @ r"
  by (auto simp: under_def dir_prefix_def prefix_def split: if_splits)

lemma under_rel: "p \<noteq> ''/'' \<Longrightarrow> rel = [] \<or> hd rel = CHR ''/'' \<Longrightarrow> under p (p @ rel)"
  by (cases rel) (auto simp: under_def dir_prefix_def)

lemma under_clean_rel:
  "p \<noteq> ''/'' \<Longrightarrow> under p k \<Longrightarrow> \<exists>rel. k = p @ rel \<and> (rel = [] \<or> hd rel = CHR ''/'')"
  by (auto simp: under_def dir_prefix_def prefix_def)

lemma replace_diverges:
  assumes "js_includes app ''problem''"
  shows "js_replace ''problem'' ''solution'' app @ a \<noteq> app @ b"
proof -
  from js_replace_form[OF assms, of "''solution''"] obtain pre post where
    "app = pre @ ''problem'' @ post" "js_replace ''problem'' ''solution'' app = pre @ ''solution'' @ post"
    by blast
  then show ?thesis by simp
qed

lemma map_of_filter_keys:
  "P k \<Longrightarrow> map_of (filter (\<lambda>(k, e). P k) xs) k = map_of xs k"
  by (induction xs) auto

lemma map_of_filter_keys_None:
  "\<not> P k \<Longrightarrow> map_of (filter (\<lambda>(k, e). P k) xs) k = None"
  by (induction xs) auto

lemma map_of_translate:
  assumes "\<forall>k \<in> fst ` set xs. prefix src k" "prefix src k0"
  shows "map_of (map (\<lambda>(k, e). (dest @ drop (length src) k, e)) xs) (dest @ drop (length src) k0)
           = map_of xs k0"
  using assms
proof (induction xs)
  case Nil
  then show ?case by simp
next
  case (Cons x xs)
  obtain k e where x: "x = (k, e)" by force
  from Cons.prems x have "prefix src k" by simp
  with Cons.prems(2) have "dest @ drop (length src) k0 = dest @ drop (length src) k \<longleftrightarrow> k0 = k"
    by (auto simp: prefix_def)
  moreover have "map_of (map (\<lambda>(k, e). (dest @ drop (length src) k, e)) xs) (dest @ drop (length src) k0)
           = map_of xs k0"
    using Cons by simp
  ultimately show ?case by (simp add: x del: same_append_eq)
qed

lemma translate_keys_distinct:
  assumes "\<forall>k \<in> fst ` set xs. prefix src k" "distinct (map fst xs)"
  shows "distinct (map fst (map (\<lambda>(k, e). (dest @ drop (length src) k, e)) xs))"
  using assms
proof (induction xs)
  case Nil
  then show ?case by simp
next
  case (Cons x xs)
  obtain k e where x: "x = (k, e)" by force
  have "dest @ drop (length src) k \<noteq> dest @ drop (length src) k'" if "k' \<in> fst ` set xs" for k'
  proof -
    from that Cons.prems x have "prefix src k" "prefix src k'" "k \<noteq> k'" by auto
    then show ?thesis by (auto simp: prefix_def)
  qed
  then have "dest @ drop (length src) k \<notin> fst ` set (map (\<lambda>(k, e). (dest @ drop (length src) k, e)) xs)"
    by (force simp del: same_append_eq)
  moreover have "distinct (map fst (map (\<lambda>(k, e). (dest @ drop (length src) k, e)) xs))"
    using Cons by simp
  ultimately show ?case by (simp add: x image_image del: same_append_eq)
qed

lemma fold_put_entry_fresh:
  "distinct (map fst es) \<Longrightarrow> \<forall>k \<in> fst ` set es. k \<noteq> ''/'' \<and> k \<notin> fst ` set fs
   \<Longrightarrow> fold put_entry es (Inr fs) = Inr (fs @ es)"
proof (induction es arbitrary: fs)
  case Nil
  then show ?case by simp
next
  case (Cons x es)
  obtain k e where x: "x = (k, e)" by force
  from Cons.prems x have "stat fs k = None"
    by (auto simp: stat_def map_of_eq_None_iff)
  then have "put_entry x (Inr fs) = Inr (fs @ [x])" by (simp add: x)
  moreover have "fold put_entry es (Inr (fs @ [x])) = Inr ((fs @ [x]) @ es)"
    by (rule Cons.IH) (use Cons.prems x in auto)
  ultimately show ?case by simp
qed

lemma parent_child:
  assumes "p \<noteq> []" "CHR ''/'' \<notin> set n"
  shows "parent (p @ CHR ''/'' # n) = p"
proof -
  have "dropWhile (\<lambda>c. c \<noteq> CHR ''/'') (rev n @ CHR ''/'' # rev p) = CHR ''/'' # rev p"
    using assms(2) by (subst dropWhile_append2) auto
  then show ?thesis using assms(1) by (simp add: parent_def)
qed

lemma wf_fs_clean: "wf_fs fs \<Longrightarrow> map_of fs k = Some e \<Longrightarrow> clean k"
  by (auto simp: wf_fs_def list_all_iff dest!: map_of_SomeD)

lemma wf_fs_no_orphans:
  assumes "wf_fs fs" "stat fs p = None" "k \<in> fst ` set fs" "p \<noteq> []"
  shows "\<not> under p k"
proof
  assume u: "under p k"
  from assms(2) have pr: "p \<noteq> ''/''" and none: "map_of fs p = None"
    by (auto simp: stat_def split: if_splits)
  from assms(3) obtain e where ke: "(k, e) \<in> set fs" by auto
  from u pr consider "k = p" | n where "k = p @ CHR ''/'' # n"
    by (auto simp: under_def dir_prefix_def prefix_def)
  then show False
  proof cases
    case 1
    with ke none show False by (force simp: map_of_eq_None_iff)
  next
    case 2
    from ancestors_member[OF assms(4), of n] ke assms(1) 2 have "map_of fs p = Some Dir"
      by (auto simp: wf_fs_def list_all_iff)
    with none show False by simp
  qed
qed


lemma proper_name_tests [simp]: "proper_name ''tests''"
  by (simp add: proper_name_def)


section \<open>Reading back what \<open>JSON.stringify\<close> writes\<close>

lemma hex_digits_table: "list_all (\<lambda>n. hex_val (hex_digit n) = Some n) [0..<16]"
  by code_simp

lemma hex_val_hex_digit: "n < 16 \<Longrightarrow> hex_val (hex_digit n) = Some n"
  using hex_digits_table by (simp add: list_all_iff)

lemma digits_table:
  "list_all (\<lambda>d. is_digit (char_of (48 + d)) \<and> digit_val (char_of (48 + d)) = d
                 \<and> (char_of (48 + d) = CHR ''0'' \<longleftrightarrow> d = 0)
                 \<and> char_of (48 + d) \<noteq> CHR ''-'') [0..9]"
  by code_simp

lemma digit_char1: "0 \<le> d \<Longrightarrow> (d::int) < 10 \<Longrightarrow> is_digit (char_of (48 + d))"
  and digit_char2: "0 \<le> d \<Longrightarrow> (d::int) < 10 \<Longrightarrow> digit_val (char_of (48 + d)) = d"
  and digit_char3: "0 \<le> d \<Longrightarrow> (d::int) < 10 \<Longrightarrow> char_of (48 + d) = CHR ''0'' \<longleftrightarrow> d = 0"
  and digit_char4: "0 \<le> d \<Longrightarrow> (d::int) < 10 \<Longrightarrow> char_of (48 + d) \<noteq> CHR ''-''"
  using digits_table by (simp_all add: list_all_iff)

lemma cons_char_Inr [simp]: "cons_char c (Inr (s, rest)) = Inr (c # s, rest)"
  by (simp add: cons_char_def)

lemma add_chars_Inr [simp]: "add_chars cs (Inr (s, rest)) = Inr (cs @ s, rest)"
  by (simp add: add_chars_def)

lemma parse_chars_escape:
  assumes "parse_chars (s @ rest) = Inr (str, rest')"
  shows "parse_chars (escape_char c @ s @ rest) = Inr (c # str, rest')"
proof -
  consider (q) "c = CHR 0x22" | (b) "c = CHR 0x5C" | (bs) "c = CHR 0x08" | (ff) "c = CHR 0x0C"
    | (nl) "c = CHR 0x0A" | (cr) "c = CHR 0x0D" | (tab) "c = CHR 0x09"
    | (ctl) "c \<notin> {CHR 0x22, CHR 0x5C, CHR 0x08, CHR 0x0C, CHR 0x0A, CHR 0x0D, CHR 0x09}"
        "(of_char c :: nat) < 32"
    | (plain) "c \<noteq> CHR 0x22" "c \<noteq> CHR 0x5C" "\<not> (of_char c :: nat) < 32"
    by auto
  then show ?thesis
  proof cases
    case ctl
    let ?n = "of_char c :: nat"
    have h: "hex_val (hex_digit (?n div 16)) = Some (?n div 16)"
      "hex_val (hex_digit (?n mod 16)) = Some (?n mod 16)"
      using ctl(2) by (auto intro!: hex_val_hex_digit)
    have z: "hex_val CHR ''0'' = Some 0" by (simp add: hex_val_def)
    have e: "escape_char c = [CHR 0x5C, CHR ''u'', CHR ''0'', CHR ''0'',
         hex_digit (?n div 16), hex_digit (?n mod 16)]"
      using ctl by (simp add: escape_char_def)
    have "int (16 * (?n div 16) + ?n mod 16) = int ?n" by simp
    then have "16 * int (?n div 16) + int (?n mod 16) = int ?n"
      unfolding of_nat_add of_nat_mult by simp
    then have "hex4 CHR ''0'' CHR ''0'' (hex_digit (?n div 16)) (hex_digit (?n mod 16))
                 = Some (int ?n)"
      by (simp add: hex4_def h z)
    moreover have "utf8_encode (int ?n) = [c]" using ctl(2) by (simp add: utf8_encode_def)
    ultimately show ?thesis
      using ctl(2) assms by (simp add: e)
  qed (use assms in \<open>simp_all add: escape_char_def unescape_def\<close>)
qed

lemma parse_chars_quote:
  "parse_chars (concat (map escape_char s) @ CHR 0x22 # rest) = Inr (s, rest)"
proof (induction s)
  case Nil
  then show ?case by simp
next
  case (Cons c s)
  from parse_chars_escape[of "concat (map escape_char s)" "CHR 0x22 # rest" s rest c] Cons
  show ?case by simp
qed

lemma show_digits_unfold:
  "show_digits i =
     (if i < 10 then [char_of (48 + i)] else show_digits (i div 10) @ [char_of (48 + i mod 10)])"
  by (rule show_digits.simps)

lemma show_digits_nonempty: "show_digits i \<noteq> []"
  by (subst show_digits_unfold) simp

lemma show_digits_digits: "0 \<le> i \<Longrightarrow> list_all is_digit (show_digits i)"
proof (induction i rule: show_digits.induct)
  case (1 i)
  show ?case
  proof (cases "i < 10")
    case True
    with 1(2) show ?thesis by (subst show_digits_unfold) (simp add: digit_char1)
  next
    case False
    have "0 \<le> i mod 10" "i mod 10 < 10" by simp_all
    moreover from False 1 have "list_all is_digit (show_digits (i div 10))" by simp
    ultimately show ?thesis using False by (subst show_digits_unfold) (simp add: digit_char1)
  qed
qed

lemma int_of_digits_snoc: "int_of_digits (ds @ [d]) = 10 * int_of_digits ds + digit_val d"
  by (simp add: int_of_digits_def)

lemma int_of_digits_show_digits: "0 \<le> i \<Longrightarrow> int_of_digits (show_digits i) = i"
proof (induction i rule: show_digits.induct)
  case (1 i)
  show ?case
  proof (cases "i < 10")
    case True
    with 1(2) show ?thesis
      by (subst show_digits_unfold) (simp add: digit_char2 int_of_digits_def)
  next
    case False
    have "digit_val (char_of (48 + i mod 10)) = i mod 10" by (rule digit_char2) simp_all
    moreover have "int_of_digits (show_digits (i div 10)) = i div 10" using 1 False by simp
    moreover have "10 * (i div 10) + i mod 10 = i" by presburger
    ultimately have "int_of_digits (show_digits (i div 10) @ [char_of (48 + i mod 10)]) = i"
      by (simp add: int_of_digits_snoc)
    with False show ?thesis by (subst show_digits_unfold) (simp)
  qed
qed

lemma hd_show_digits_zero: "0 \<le> i \<Longrightarrow> hd (show_digits i) = CHR ''0'' \<Longrightarrow> i = 0"
proof (induction i rule: show_digits.induct)
  case (1 i)
  show ?case
  proof (cases "i < 10")
    case True
    with 1(2,3) show ?thesis
      by (subst (asm) show_digits_unfold) (simp add: digit_char3)
  next
    case False
    from 1(3) False have "hd (show_digits (i div 10)) = CHR ''0''"
      by (subst (asm) show_digits_unfold) (simp add: show_digits_nonempty)
    with 1(1,2) False have "i div 10 = 0" by simp
    with False 1(2) show ?thesis by simp
  qed
qed

lemma length_show_digits: "1 < length (show_digits i) \<Longrightarrow> 10 \<le> i"
  by (subst (asm) show_digits_unfold) (simp split: if_splits)

lemma show_digits_no_leading_zero:
  "0 \<le> i \<Longrightarrow> \<not> (hd (show_digits i) = CHR ''0'' \<and> 1 < length (show_digits i))"
  using hd_show_digits_zero length_show_digits by fastforce

lemma hd_show_digits_digit: "0 \<le> i \<Longrightarrow> is_digit (hd (show_digits i))"
  using show_digits_digits[of i] show_digits_nonempty[of i]
  by (cases "show_digits i") (simp_all)

lemma is_digit_not_minus: "is_digit c \<Longrightarrow> c \<noteq> CHR ''-''"
  by (auto simp: is_digit_def)

lemma delim_digits:
  "delim rest \<Longrightarrow> takeWhile is_digit rest = [] \<and> dropWhile is_digit rest = rest
     \<and> \<not> (rest \<noteq> [] \<and> hd rest \<in> set ''.eE'')"
  by (cases rest) (auto simp: delim_def is_digit_def)

lemma digits_then_delim:
  assumes "delim rest" "0 \<le> i"
  shows "takeWhile is_digit (show_digits i @ rest) = show_digits i"
    and "dropWhile is_digit (show_digits i @ rest) = rest"
proof -
  have all: "\<And>x. x \<in> set (show_digits i) \<Longrightarrow> is_digit x"
    using show_digits_digits[OF assms(2)] by (simp add: list_all_iff)
  show "takeWhile is_digit (show_digits i @ rest) = show_digits i"
    using takeWhile_append2[of "show_digits i" is_digit rest] all delim_digits[OF assms(1)]
    by (simp)
  show "dropWhile is_digit (show_digits i @ rest) = rest"
    using dropWhile_append2[of "show_digits i" is_digit rest] all delim_digits[OF assms(1)]
    by (simp)
qed

lemma parse_number_show_int:
  assumes "delim rest"
  shows "parse_number (show_int i @ rest) = Inr (JNum i, rest)"
proof (cases "i < 0")
  case True
  let ?n = "- i"
  have n: "0 \<le> ?n" using True by simp
  have "parse_number (CHR ''-'' # show_digits ?n @ rest) = Inr (JNum (- ?n), rest)"
    using digits_then_delim[OF assms n] show_digits_nonempty[of ?n]
      show_digits_no_leading_zero[OF n] delim_digits[OF assms]
    by (simp add: parse_number_def int_of_digits_show_digits[OF n] Let_def)
  with True show ?thesis by (simp add: show_int_def)
next
  case False
  then have n: "0 \<le> i" by simp
  have hd: "hd (show_digits i @ rest) \<noteq> CHR ''-''"
    using hd_show_digits_digit[OF n] show_digits_nonempty[of i] is_digit_not_minus
    by (simp)
  have "parse_number (show_digits i @ rest) = Inr (JNum i, rest)"
    using digits_then_delim[OF assms n] show_digits_nonempty[of i]
      show_digits_no_leading_zero[OF n] delim_digits[OF assms] hd
    by (simp add: parse_number_def int_of_digits_show_digits[OF n] Let_def)
  with False show ?thesis by (simp add: show_int_def)
qed

lemma skip_ws_simps [simp]:
  "skip_ws (CHR 0x0A # s) = skip_ws s"
  "skip_ws (CHR '' '' # s) = skip_ws s"
  "skip_ws (indent n @ s) = skip_ws s"
  "skip_ws [] = []"
  by (induction n) (simp_all add: skip_ws_def is_ws_def indent_def)

lemma skip_ws_starts_value: "starts_value s \<Longrightarrow> skip_ws s = s"
  by (cases s) (auto simp: starts_value_def skip_ws_def is_ws_def)

lemma skip_ws_punct [simp]:
  "skip_ws (CHR '','' # s) = CHR '','' # s"
  "skip_ws (CHR '']'' # s) = CHR '']'' # s"
  "skip_ws (CHR ''}'' # s) = CHR ''}'' # s"
  "skip_ws (CHR '':'' # s) = CHR '':'' # s"
  "skip_ws (CHR 0x22 # s) = CHR 0x22 # s"
  by (simp_all add: skip_ws_def is_ws_def)

lemma show_int_start:
  "\<exists>c cs. show_int i = c # cs \<and> (c = CHR ''-'' \<or> is_digit c)"
proof (cases "i < 0")
  case True
  then show ?thesis by (simp add: show_int_def)
next
  case False
  with hd_show_digits_digit[of i] show_digits_nonempty[of i] show ?thesis
    by (cases "show_digits i") (simp_all add: show_int_def)
qed

lemma starts_value_stringify: "starts_value (stringify_at ind v @ rest)"
proof (cases v)
  case (JNum i)
  from show_int_start[of i] obtain c cs where "show_int i = c # cs" "c = CHR ''-'' \<or> is_digit c"
    by blast
  with JNum show ?thesis by (auto simp: starts_value_def is_digit_def)
qed (simp_all add: starts_value_def quote_def)

lemma starts_value_hd:
  "starts_value s \<Longrightarrow> \<exists>c cs. s = c # cs \<and> c \<noteq> CHR '']'' \<and> c \<noteq> CHR ''}''"
  by (cases s) (auto simp: starts_value_def)

lemma delim_simps [simp]: "delim (CHR '','' # s)" "delim (CHR 0x0A # s)" "delim []"
  by (simp_all add: delim_def)

lemma parse_elements_text:
  assumes IH: "\<And>x n ind rest. x \<in> set xs \<Longrightarrow> fuel_v x \<le> n \<Longrightarrow> delim rest
                 \<Longrightarrow> parse_value n (stringify_at ind x @ rest) = Inr (x, rest)"
    and "xs \<noteq> []" and "sum_list (map (\<lambda>x. Suc (fuel_v x)) xs) \<le> n"
  shows "parse_elements n
           (skip_ws (join_with ('','' @ [CHR 0x0A]) (map (\<lambda>x. indent i @ stringify_at i x) xs)
                     @ CHR 0x0A # indent j @ CHR '']'' # rest))
         = Inr (xs, rest)"
  using assms
proof (induction xs arbitrary: n)
  case Nil
  then show ?case by simp
next
  case (Cons x xs)
  from Cons.prems(3) obtain m where n: "n = Suc m" and fx: "fuel_v x \<le> m"
    and fxs: "sum_list (map (\<lambda>x. Suc (fuel_v x)) xs) \<le> m"
    by (cases n) auto
  show ?case
  proof (cases xs)
    case Nil
    let ?tail = "CHR 0x0A # indent j @ CHR '']'' # rest"
    have "parse_value m (stringify_at i x @ ?tail) = Inr (x, ?tail)"
      by (rule Cons.prems(1)) (simp_all add: fx)
    then show ?thesis
      using skip_ws_starts_value[OF starts_value_stringify[of i x ?tail]]
      by (simp add: Nil n)
  next
    case (Cons y ys)
    let ?more = "join_with ('','' @ [CHR 0x0A]) (map (\<lambda>x. indent i @ stringify_at i x) xs)
                     @ CHR 0x0A # indent j @ CHR '']'' # rest"
    let ?tail = "CHR '','' # CHR 0x0A # ?more"
    have v: "parse_value m (stringify_at i x @ ?tail) = Inr (x, ?tail)"
      by (rule Cons.prems(1)) (simp_all add: fx)
    have "parse_elements m (skip_ws ?more) = Inr (xs, rest)"
      by (rule Cons.IH) (use Cons.prems(1) fxs Cons in auto)
    with v show ?thesis
      using skip_ws_starts_value[OF starts_value_stringify[of i x ?tail]]
      by (simp add: Cons n)
  qed
qed

lemma parse_members_text:
  assumes IH: "\<And>kv n ind rest. kv \<in> set kvs \<Longrightarrow> fuel_v (snd kv) \<le> n \<Longrightarrow> delim rest
                 \<Longrightarrow> parse_value n (stringify_at ind (snd kv) @ rest) = Inr (snd kv, rest)"
    and "kvs \<noteq> []" and "sum_list (map (\<lambda>kv. Suc (fuel_v (snd kv))) kvs) \<le> n"
  shows "parse_members n
           (skip_ws (join_with ('','' @ [CHR 0x0A])
                       (map (\<lambda>kv. indent i @ quote (fst kv) @ '': '' @ stringify_at i (snd kv)) kvs)
                     @ CHR 0x0A # indent j @ CHR ''}'' # rest))
         = Inr (kvs, rest)"
  using assms
proof (induction kvs arbitrary: n)
  case Nil
  then show ?case by simp
next
  case (Cons kv kvs)
  obtain k v where kv: "kv = (k, v)" by force
  from Cons.prems(3) obtain m where n: "n = Suc m" and fx: "fuel_v v \<le> m"
    and fxs: "sum_list (map (\<lambda>kv. Suc (fuel_v (snd kv))) kvs) \<le> m"
    by (cases n) (auto simp: kv)
  show ?case
  proof (cases kvs)
    case Nil
    let ?tail = "CHR 0x0A # indent j @ CHR ''}'' # rest"
    have "parse_value m (stringify_at i v @ ?tail) = Inr (v, ?tail)"
      using Cons.prems(1)[of kv m ?tail i] by (simp add: fx kv)
    then show ?thesis
      using skip_ws_starts_value[OF starts_value_stringify[of i v ?tail]]
        parse_chars_quote[of k "'': '' @ stringify_at i v @ ?tail"]
      by (simp add: Nil n kv quote_def)
  next
    case (Cons y ys)
    let ?more = "join_with ('','' @ [CHR 0x0A])
                       (map (\<lambda>kv. indent i @ quote (fst kv) @ '': '' @ stringify_at i (snd kv)) kvs)
                     @ CHR 0x0A # indent j @ CHR ''}'' # rest"
    let ?tail = "CHR '','' # CHR 0x0A # ?more"
    have v: "parse_value m (stringify_at i v @ ?tail) = Inr (v, ?tail)"
      using Cons.prems(1)[of kv m ?tail i] by (simp add: fx kv)
    have "parse_members m (skip_ws ?more) = Inr (kvs, rest)"
      by (rule Cons.IH) (use Cons.prems(1) fxs Cons in auto)
    with v show ?thesis
      using skip_ws_starts_value[OF starts_value_stringify[of i v ?tail]]
        parse_chars_quote[of k "'': '' @ stringify_at i v @ ?tail"]
      by (simp add: Cons n kv quote_def)
  qed
qed

lemma is_digit_not_special:
  "is_digit c \<Longrightarrow> c \<noteq> CHR 0x22 \<and> c \<noteq> CHR ''['' \<and> c \<noteq> CHR ''{''
     \<and> CHR ''n'' \<noteq> c \<and> CHR ''t'' \<noteq> c \<and> CHR ''f'' \<noteq> c"
  by (auto simp: is_digit_def)

lemma pv_num:
  assumes "delim rest"
  shows "parse_value (Suc m) (show_int i @ rest) = Inr (JNum i, rest)"
proof -
  from show_int_start[of i] obtain c cs where s: "show_int i = c # cs"
    and c: "c = CHR ''-'' \<or> is_digit c" by blast
  have "parse_value (Suc m) (c # cs @ rest) = parse_number (c # cs @ rest)"
  proof (cases "c = CHR ''-''")
    case True
    then show ?thesis by simp
  next
    case False
    with c have d: "is_digit c" by simp
    from is_digit_not_special[OF d] d show ?thesis by simp
  qed
  with parse_number_show_int[OF assms, of i] show ?thesis by (simp add: s)
qed

lemma pv_str: "parse_value (Suc m) (quote str @ rest) = Inr (JStr str, rest)"
  using parse_chars_quote[of str rest] by (simp add: quote_def)

lemma pv_arr:
  assumes IH: "\<And>x n ind rest. x \<in> set xs \<Longrightarrow> fuel_v x \<le> n \<Longrightarrow> delim rest
                 \<Longrightarrow> parse_value n (stringify_at ind x @ rest) = Inr (x, rest)"
    and f: "sum_list (map (\<lambda>x. Suc (fuel_v x)) xs) \<le> m"
  shows "parse_value (Suc m) (stringify_at ind (JArr xs) @ rest) = Inr (JArr xs, rest)"
proof (cases "xs = []")
  case True
  then show ?thesis by simp
next
  case False
  let ?body = "join_with ('','' @ [CHR 0x0A]) (map (\<lambda>x. indent (ind + 2) @ stringify_at (ind + 2) x) xs)
                   @ CHR 0x0A # indent ind @ CHR '']'' # rest"
  have pe: "parse_elements m (skip_ws ?body) = Inr (xs, rest)"
    by (rule parse_elements_text[OF IH False f])
  obtain x ys where xs: "xs = x # ys" using False by (cases xs) auto
  have "\<exists>t. ?body = indent (ind + 2) @ stringify_at (ind + 2) x @ t"
    by (cases ys) (simp_all add: xs)
  then obtain t where "skip_ws ?body = stringify_at (ind + 2) x @ t"
    using skip_ws_starts_value[OF starts_value_stringify] by auto
  with starts_value_hd[OF starts_value_stringify[of "ind + 2" x t]]
  obtain c cs where sk: "skip_ws ?body = c # cs" "c \<noteq> CHR '']''" by auto
  have "stringify_at ind (JArr xs) @ rest = CHR ''['' # CHR 0x0A # ?body"
    using False by simp
  then have "parse_value (Suc m) (stringify_at ind (JArr xs) @ rest)
      = (case parse_elements m (c # cs) of Inl e \<Rightarrow> Inl e | Inr (xs, rest) \<Rightarrow> Inr (JArr xs, rest))"
    using sk by (simp del: stringify_at.simps)
  with pe sk show ?thesis by (simp del: stringify_at.simps)
qed

lemma pv_null: "parse_value (Suc m) (''null'' @ rest) = Inr (JNull, rest)"
  by simp

lemma pv_bool: "parse_value (Suc m) ((if b then ''true'' else ''false'') @ rest) = Inr (JBool b, rest)"
  by simp

lemma pv_obj:
  assumes IH: "\<And>kv n ind rest. kv \<in> set kvs \<Longrightarrow> fuel_v (snd kv) \<le> n \<Longrightarrow> delim rest
                 \<Longrightarrow> parse_value n (stringify_at ind (snd kv) @ rest) = Inr (snd kv, rest)"
    and f: "sum_list (map (\<lambda>kv. Suc (fuel_v (snd kv))) kvs) \<le> m"
  shows "parse_value (Suc m) (stringify_at ind (JObj kvs) @ rest) = Inr (JObj kvs, rest)"
proof (cases "kvs = []")
  case True
  then show ?thesis by simp
next
  case False
  let ?body = "join_with ('','' @ [CHR 0x0A])
                 (map (\<lambda>kv. indent (ind + 2) @ quote (fst kv) @ '': '' @ stringify_at (ind + 2) (snd kv)) kvs)
                   @ CHR 0x0A # indent ind @ CHR ''}'' # rest"
  have pe: "parse_members m (skip_ws ?body) = Inr (kvs, rest)"
    by (rule parse_members_text[OF IH False f])
  obtain kv ys where kvs: "kvs = kv # ys" using False by (cases kvs) auto
  have "\<exists>t. ?body = indent (ind + 2) @ CHR 0x22 # t"
    by (cases ys) (simp_all add: kvs quote_def)
  then obtain t where sk: "skip_ws ?body = CHR 0x22 # t" by auto
  have "stringify_at ind (JObj kvs) @ rest = CHR ''{'' # CHR 0x0A # ?body"
    using False by simp
  then have "parse_value (Suc m) (stringify_at ind (JObj kvs) @ rest)
      = (case parse_members m (CHR 0x22 # t) of Inl e \<Rightarrow> Inl e | Inr (kvs, rest) \<Rightarrow> Inr (JObj kvs, rest))"
    using sk by (simp del: stringify_at.simps)
  with pe sk show ?thesis by (simp del: stringify_at.simps)
qed

lemma parse_value_stringify:
  "fuel_v v \<le> n \<Longrightarrow> delim rest \<Longrightarrow> parse_value n (stringify_at ind v @ rest) = Inr (v, rest)"
proof (induction v arbitrary: n ind rest)
  case JNull
  then obtain m where "n = Suc m" by (cases n) auto
  then show ?case using pv_null[of m rest] by (simp del: parse_value.simps)
next
  case (JBool b)
  then obtain m where "n = Suc m" by (cases n) auto
  then show ?case using pv_bool[of m b rest] by (simp del: parse_value.simps)
next
  case (JNum i)
  then obtain m where "n = Suc m" by (cases n) auto
  then show ?case using pv_num[OF JNum(2), of m i] by (simp del: parse_value.simps)
next
  case (JStr str)
  then obtain m where "n = Suc m" by (cases n) auto
  then show ?case using pv_str[of m str rest] by (simp del: parse_value.simps)
next
  case (JArr xs)
  from JArr(2) obtain m where n: "n = Suc m"
    and f: "sum_list (map (\<lambda>x. Suc (fuel_v x)) xs) \<le> m" by (cases n) auto
  show ?case unfolding n by (rule pv_arr[OF JArr.IH f])
next
  case (JObj kvs)
  from JObj(2) obtain m where n: "n = Suc m"
    and f: "sum_list (map (\<lambda>kv. Suc (fuel_v (snd kv))) kvs) \<le> m" by (cases n) auto
  have IH: "parse_value n (stringify_at ind (snd kv) @ rest) = Inr (snd kv, rest)"
    if "kv \<in> set kvs" "fuel_v (snd kv) \<le> n" "delim rest" for kv n ind rest
  proof -
    have "snd kv \<in> Basic_BNFs.snds kv" by (cases kv) simp
    with that show ?thesis using JObj.IH by blast
  qed
  show ?case unfolding n by (rule pv_obj[OF IH f])
qed

lemma length_join_with: "sum_list (map length ys) \<le> length (join_with d ys)"
  by (induction d ys rule: join_with.induct) auto

lemma show_int_nonempty: "show_int i \<noteq> []"
  by (simp add: show_int_def show_digits_nonempty)

lemma fuel_le_length: "fuel_v v \<le> length (stringify_at ind v)"
proof (induction v arbitrary: ind)
  case (JNum i)
  then show ?case using show_int_nonempty[of i] by (cases "show_int i") simp_all
next
  case (JArr xs)
  show ?case
  proof (cases "xs = []")
    case True
    then show ?thesis by simp
  next
    case False
    have "sum_list (map (\<lambda>x. Suc (fuel_v x)) xs)
            \<le> sum_list (map (\<lambda>x. length (indent (ind + 2) @ stringify_at (ind + 2) x)) xs)"
    proof (rule sum_list_mono)
      fix x assume "x \<in> set xs"
      then have "fuel_v x \<le> length (stringify_at (ind + 2) x)" by (rule JArr.IH)
      then show "Suc (fuel_v x) \<le> length (indent (ind + 2) @ stringify_at (ind + 2) x)"
        by (simp add: indent_def)
    qed
    also have "\<dots> \<le> length (join_with ('','' @ [CHR 0x0A])
                          (map (\<lambda>x. indent (ind + 2) @ stringify_at (ind + 2) x) xs))"
      using length_join_with[of "map (\<lambda>x. indent (ind + 2) @ stringify_at (ind + 2) x) xs"]
      by (simp add: comp_def)
    finally show ?thesis using False by simp
  qed
next
  case (JObj kvs)
  show ?case
  proof (cases "kvs = []")
    case True
    then show ?thesis by simp
  next
    case False
    have IH: "fuel_v (snd kv) \<le> length (stringify_at (ind + 2) (snd kv))" if "kv \<in> set kvs" for kv
    proof -
      have "snd kv \<in> Basic_BNFs.snds kv" by (cases kv) simp
      with that show ?thesis using JObj.IH by blast
    qed
    have "sum_list (map (\<lambda>kv. Suc (fuel_v (snd kv))) kvs)
            \<le> sum_list (map (\<lambda>kv. length (indent (ind + 2) @ quote (fst kv) @ '': ''
                                   @ stringify_at (ind + 2) (snd kv))) kvs)"
    proof (rule sum_list_mono)
      fix kv assume "kv \<in> set kvs"
      then have "fuel_v (snd kv) \<le> length (stringify_at (ind + 2) (snd kv))" by (rule IH)
      then show "Suc (fuel_v (snd kv)) \<le> length (indent (ind + 2) @ quote (fst kv) @ '': ''
                                   @ stringify_at (ind + 2) (snd kv))"
        by (simp add: indent_def)
    qed
    also have "\<dots> \<le> length (join_with ('','' @ [CHR 0x0A])
                          (map (\<lambda>kv. indent (ind + 2) @ quote (fst kv) @ '': ''
                                   @ stringify_at (ind + 2) (snd kv)) kvs))"
      using length_join_with[of "map (\<lambda>kv. indent (ind + 2) @ quote (fst kv) @ '': ''
                                   @ stringify_at (ind + 2) (snd kv)) kvs"]
      by (simp add: comp_def)
    finally show ?thesis using False by simp
  qed
qed (simp_all add: quote_def)

lemma parse_text_stringify: "parse_text (JSON_stringify v @ [CHR 0x0A]) = Inr v"
proof -
  let ?s = "JSON_stringify v @ [CHR 0x0A]"
  have "fuel_v v \<le> length ?s"
    using fuel_le_length[of v 0] by (simp add: JSON_stringify_def)
  then have f: "fuel_v v \<le> 2 * length ?s + 2" by simp
  have "skip_ws ?s = ?s"
    unfolding JSON_stringify_def by (rule skip_ws_starts_value[OF starts_value_stringify])
  moreover have "parse_value (2 * length ?s + 2) ?s = Inr (v, [CHR 0x0A])"
    using parse_value_stringify[OF f, of "[CHR 0x0A]" 0] by (simp add: JSON_stringify_def)
  ultimately show ?thesis by (simp add: parse_text_def)
qed

subsection \<open>The parser never runs out of fuel\<close>

text \<open>
  Each parser that returns a value has consumed at least one character, so the fuel
  \<open>parse_text\<close> gives, which is linear in the length of the text, is always enough:
  \<open>JSON_parse\<close> never returns \<open>OutOfFuel\<close>.
\<close>

lemma cons_char_Inr_iff:
  "cons_char c r = Inr (str, rest) \<longleftrightarrow> (\<exists>str'. r = Inr (str', rest) \<and> str = c # str')"
  by (auto simp: cons_char_def split: sum.splits)

lemma add_chars_Inr_iff:
  "add_chars cs r = Inr (str, rest) \<longleftrightarrow> (\<exists>str'. r = Inr (str', rest) \<and> str = cs @ str')"
  by (auto simp: add_chars_def split: sum.splits)

lemma parse_chars_shorter: "parse_chars s = Inr (str, rest) \<Longrightarrow> length rest < length s"
proof (induction s arbitrary: str rule: length_induct)
  case (1 s)
  show ?case
  proof (cases s)
    case Nil
    with 1 show ?thesis by simp
  next
    case (Cons c cs)
    have IH: "parse_chars t = Inr (str', rest) \<Longrightarrow> length rest < length t"
      if "length t < length s" for t str'
      using 1(1) that by blast
    from 1(2) show ?thesis
      unfolding Cons
      by (auto simp: cons_char_Inr_iff add_chars_Inr_iff split: if_splits list.splits option.splits
          dest!: IH[unfolded Cons, rotated])
  qed
qed

lemma skip_ws_length: "length (skip_ws s) \<le> length s"
  by (simp add: skip_ws_def length_dropWhile_le)

lemma parse_number_shorter: "parse_number s = Inr (v, rest) \<Longrightarrow> length rest < length s"
proof -
  assume a: "parse_number s = Inr (v, rest)"
  define s1 where "s1 = (if s \<noteq> [] \<and> hd s = CHR ''-'' then tl s else s)"
  from a have r: "rest = dropWhile is_digit s1" and ne: "takeWhile is_digit s1 \<noteq> []"
    by (auto simp: parse_number_def Let_def s1_def split: if_splits)
  have "length (takeWhile is_digit s1) + length (dropWhile is_digit s1) = length s1"
    by (metis length_append takeWhile_dropWhile_id)
  with ne have "length (dropWhile is_digit s1) < length s1" by (cases "takeWhile is_digit s1") auto
  moreover have "length s1 \<le> length s" by (simp add: s1_def)
  ultimately show ?thesis using r by simp
qed


lemma skip_ws_Cons: "skip_ws t = c # cs \<Longrightarrow> length cs < length t"
  using skip_ws_length[of t] by simp

lemma prefix_drop_shorter: "prefix p s \<Longrightarrow> p \<noteq> [] \<Longrightarrow> length (drop (length p) s) < length s"
  by (auto simp: prefix_def)

lemma parse_value_shorter_step:
  assumes E: "\<And>s xs rest. parse_elements n s = Inr (xs, rest) \<Longrightarrow> length rest < length s"
    and M: "\<And>s kvs rest. parse_members n s = Inr (kvs, rest) \<Longrightarrow> length rest < length s"
    and p: "parse_value (Suc n) s = Inr (v, rest)"
  shows "length rest < length s"
proof (cases s)
  case Nil
  with p show ?thesis by simp
next
  case (Cons c cs)
  consider (str) "c = CHR 0x22" | (arr) "c = CHR ''[''" | (obj) "c = CHR ''{''"
    | (other) "c \<noteq> CHR 0x22" "c \<noteq> CHR ''[''" "c \<noteq> CHR ''{''" by blast
  then show ?thesis
  proof cases
    case str
    with p Cons obtain x where "parse_chars cs = Inr (x, rest)"
      by (auto split: sum.splits)
    from parse_chars_shorter[OF this] Cons show ?thesis by simp
  next
    case arr
    show ?thesis
    proof (cases "skip_ws cs")
      case Nil
      with p Cons arr show ?thesis by simp
    next
      case (Cons c' cs')
      note sk = skip_ws_Cons[OF Cons]
      show ?thesis
      proof (cases "c' = CHR '']''")
        case True
        with p \<open>s = c # cs\<close> arr Cons sk show ?thesis by auto
      next
        case False
        with p \<open>s = c # cs\<close> arr Cons obtain xs where "parse_elements n (c' # cs') = Inr (xs, rest)"
          by (auto split: sum.splits)
        from E[OF this] sk \<open>s = c # cs\<close> show ?thesis by simp
      qed
    qed
  next
    case obj
    show ?thesis
    proof (cases "skip_ws cs")
      case Nil
      with p Cons obj show ?thesis by simp
    next
      case (Cons c' cs')
      note sk = skip_ws_Cons[OF Cons]
      show ?thesis
      proof (cases "c' = CHR ''}''")
        case True
        with p \<open>s = c # cs\<close> obj Cons sk show ?thesis by auto
      next
        case False
        with p \<open>s = c # cs\<close> obj Cons obtain kvs where "parse_members n (c' # cs') = Inr (kvs, rest)"
          by (auto split: sum.splits)
        from M[OF this] sk \<open>s = c # cs\<close> show ?thesis by simp
      qed
    qed
  next
    case other
    from p other Cons consider "prefix ''null'' s" "rest = drop 4 s"
      | "prefix ''true'' s" "rest = drop 4 s" | "prefix ''false'' s" "rest = drop 5 s"
      | "parse_number s = Inr (v, rest)"
      by (auto split: if_splits)
    then show ?thesis
    proof cases
      case 1
      with prefix_drop_shorter[of "''null''" s] show ?thesis by simp
    next
      case 2
      with prefix_drop_shorter[of "''true''" s] show ?thesis by simp
    next
      case 3
      with prefix_drop_shorter[of "''false''" s] show ?thesis by simp
    next
      case 4
      then show ?thesis by (rule parse_number_shorter)
    qed
  qed
qed

lemma parse_elements_shorter_step:
  assumes V: "\<And>s v rest. parse_value n s = Inr (v, rest) \<Longrightarrow> length rest < length s"
    and E: "\<And>s xs rest. parse_elements n s = Inr (xs, rest) \<Longrightarrow> length rest < length s"
    and p: "parse_elements (Suc n) s = Inr (xs, rest)"
  shows "length rest < length s"
proof -
  from p obtain x r1 where v: "parse_value n s = Inr (x, r1)"
    by (auto split: sum.splits)
  note l1 = V[OF v]
  from p v obtain c cs where sk: "skip_ws r1 = c # cs"
    by (cases "skip_ws r1") auto
  note l2 = skip_ws_Cons[OF sk]
  show ?thesis
  proof (cases "c = CHR '']''")
    case True
    with p v sk l1 l2 show ?thesis by auto
  next
    case False
    with p v sk obtain ys where "c = CHR '',''" "parse_elements n (skip_ws cs) = Inr (ys, rest)"
      by (auto split: sum.splits if_splits)
    from E[OF this(2)] skip_ws_length[of cs] l1 l2 show ?thesis by simp
  qed
qed

lemma parse_members_shorter_step:
  assumes V: "\<And>s v rest. parse_value n s = Inr (v, rest) \<Longrightarrow> length rest < length s"
    and M: "\<And>s kvs rest. parse_members n s = Inr (kvs, rest) \<Longrightarrow> length rest < length s"
    and p: "parse_members (Suc n) s = Inr (kvs, rest)"
  shows "length rest < length s"
proof -
  from p obtain s0 where s: "s = CHR 0x22 # s0"
    by (cases s) (auto split: if_splits)
  from p s obtain k s1 where k: "parse_chars s0 = Inr (k, s1)"
    by (auto split: sum.splits)
  note l1 = parse_chars_shorter[OF k]
  from p s k obtain s2 where sk1: "skip_ws s1 = CHR '':'' # s2"
    by (cases "skip_ws s1") (auto split: if_splits)
  note l2 = skip_ws_Cons[OF sk1]
  from p s k sk1 obtain v s3 where v: "parse_value n (skip_ws s2) = Inr (v, s3)"
    by (auto split: sum.splits)
  note l3 = V[OF v] skip_ws_length[of s2]
  from p s k sk1 v obtain c s4 where sk2: "skip_ws s3 = c # s4"
    by (cases "skip_ws s3") auto
  note l4 = skip_ws_Cons[OF sk2]
  show ?thesis
  proof (cases "c = CHR ''}''")
    case True
    with p s k sk1 v sk2 l1 l2 l3 l4 show ?thesis by auto
  next
    case False
    with p s k sk1 v sk2 obtain ys where "parse_members n (skip_ws s4) = Inr (ys, rest)"
      by (auto split: sum.splits if_splits)
    from M[OF this] skip_ws_length[of s4] l1 l2 l3 l4 s show ?thesis by simp
  qed
qed

lemma parse_shorter:
  "(\<forall>s v rest. parse_value n s = Inr (v, rest) \<longrightarrow> length rest < length s)
   \<and> (\<forall>s xs rest. parse_elements n s = Inr (xs, rest) \<longrightarrow> length rest < length s)
   \<and> (\<forall>s kvs rest. parse_members n s = Inr (kvs, rest) \<longrightarrow> length rest < length s)"
proof (induction n)
  case 0
  then show ?case by simp
next
  case (Suc n)
  then show ?case
    using parse_value_shorter_step[of n] parse_elements_shorter_step[of n]
      parse_members_shorter_step[of n]
    by blast
qed


lemma cons_char_Inl_iff: "cons_char c r = Inl e \<longleftrightarrow> r = Inl e"
  by (auto simp: cons_char_def split: sum.splits)

lemma add_chars_Inl_iff: "add_chars cs r = Inl e \<longleftrightarrow> r = Inl e"
  by (auto simp: add_chars_def split: sum.splits)

lemma parse_chars_fuel: "parse_chars s \<noteq> Inl OutOfFuel"
proof (induction s rule: length_induct)
  case (1 s)
  show ?case
  proof (cases s)
    case Nil
    then show ?thesis by simp
  next
    case (Cons c cs)
    have IH: "parse_chars t = Inl OutOfFuel \<Longrightarrow> False"
      if "length t < length s" for t
      using 1 that by blast
    show ?thesis
    proof
      assume "parse_chars s = Inl OutOfFuel"
      then show False
        unfolding Cons
        by (auto simp: cons_char_Inl_iff add_chars_Inl_iff split: if_splits list.splits option.splits
            dest!: IH[unfolded Cons, rotated])
    qed
  qed
qed


lemma parse_number_fuel: "parse_number s \<noteq> Inl OutOfFuel"
  by (simp add: parse_number_def Let_def)

lemma parse_value_fuel_step:
  assumes E: "\<And>s. 2 * length s + 1 < n \<Longrightarrow> parse_elements n s \<noteq> Inl OutOfFuel"
    and M: "\<And>s. 2 * length s + 1 < n \<Longrightarrow> parse_members n s \<noteq> Inl OutOfFuel"
    and n: "2 * length s < Suc n"
  shows "parse_value (Suc n) s \<noteq> Inl OutOfFuel"
proof (cases s)
  case Nil
  then show ?thesis by simp
next
  case (Cons c cs)
  consider (str) "c = CHR 0x22" | (arr) "c = CHR ''[''" | (obj) "c = CHR ''{''"
    | (other) "c \<noteq> CHR 0x22" "c \<noteq> CHR ''[''" "c \<noteq> CHR ''{''" by blast
  then show ?thesis
  proof cases
    case str
    with Cons parse_chars_fuel[of cs] show ?thesis by (auto split: sum.splits)
  next
    case arr
    show ?thesis
    proof (cases "skip_ws cs")
      case Nil
      with Cons arr show ?thesis by simp
    next
      case (Cons c' cs')
      from skip_ws_Cons[OF Cons] n \<open>s = c # cs\<close> have "2 * length (c' # cs') + 1 < n" by simp
      from E[OF this] Cons \<open>s = c # cs\<close> arr show ?thesis by (auto split: sum.splits)
    qed
  next
    case obj
    show ?thesis
    proof (cases "skip_ws cs")
      case Nil
      with Cons obj show ?thesis by simp
    next
      case (Cons c' cs')
      from skip_ws_Cons[OF Cons] n \<open>s = c # cs\<close> have "2 * length (c' # cs') + 1 < n" by simp
      from M[OF this] Cons \<open>s = c # cs\<close> obj show ?thesis by (auto split: sum.splits)
    qed
  next
    case other
    with Cons parse_number_fuel[of s] show ?thesis by simp
  qed
qed

lemma parse_elements_fuel_step:
  assumes V: "\<And>s. 2 * length s < n \<Longrightarrow> parse_value n s \<noteq> Inl OutOfFuel"
    and E: "\<And>s. 2 * length s + 1 < n \<Longrightarrow> parse_elements n s \<noteq> Inl OutOfFuel"
    and n: "2 * length s + 1 < Suc n"
  shows "parse_elements (Suc n) s \<noteq> Inl OutOfFuel"
proof (cases "parse_value n s")
  case (Inl e)
  with V[of s] n show ?thesis by auto
next
  case (Inr p)
  obtain x r1 where p: "p = (x, r1)" by (cases p)
  from parse_shorter[of n] Inr p have l1: "length r1 < length s" by blast
  show ?thesis
  proof (cases "skip_ws r1")
    case Nil
    with Inr p show ?thesis by simp
  next
    case (Cons c cs)
    from skip_ws_Cons[OF Cons] skip_ws_length[of cs] l1 n
    have "2 * length (skip_ws cs) + 1 < n" by simp
    from E[OF this] Inr p Cons show ?thesis by (auto split: sum.splits)
  qed
qed

lemma parse_members_fuel_step:
  assumes V: "\<And>s. 2 * length s < n \<Longrightarrow> parse_value n s \<noteq> Inl OutOfFuel"
    and M: "\<And>s. 2 * length s + 1 < n \<Longrightarrow> parse_members n s \<noteq> Inl OutOfFuel"
    and n: "2 * length s + 1 < Suc n"
  shows "parse_members (Suc n) s \<noteq> Inl OutOfFuel"
proof (cases s)
  case Nil
  then show ?thesis by simp
next
  case (Cons q s0)
  show ?thesis
  proof (cases "parse_chars s0")
    case (Inl e)
    with Cons parse_chars_fuel[of s0] show ?thesis by auto
  next
    case (Inr p)
    obtain k s1 where p: "p = (k, s1)" by (cases p)
    from parse_chars_shorter Inr p have l1: "length s1 < length s0" by blast
    show ?thesis
    proof (cases "skip_ws s1")
      case Nil
      with Cons Inr p show ?thesis by simp
    next
      case c: (Cons c s2)
      note l2 = skip_ws_Cons[OF c] skip_ws_length[of s2]
      show ?thesis
      proof (cases "parse_value n (skip_ws s2)")
        case (Inl e)
        from l1 l2 n Cons have "2 * length (skip_ws s2) < n" by simp
        from V[OF this] Inl Cons Inr p c show ?thesis by auto
      next
        case v: (Inr pv)
        obtain v s3 where pv: "pv = (v, s3)" by (cases pv)
        from parse_shorter[of n] v pv have l3: "length s3 < length (skip_ws s2)" by blast
        show ?thesis
        proof (cases "skip_ws s3")
          case Nil
          with Cons Inr p c v pv show ?thesis by simp
        next
          case c': (Cons c' s4)
          from skip_ws_Cons[OF c'] skip_ws_length[of s4] l1 l2 l3 n Cons
          have "2 * length (skip_ws s4) + 1 < n" by simp
          from M[OF this] Cons Inr p c v pv c' show ?thesis by (auto split: sum.splits)
        qed
      qed
    qed
  qed
qed

lemma parse_fuel:
  "(\<forall>s. 2 * length s < n \<longrightarrow> parse_value n s \<noteq> Inl OutOfFuel)
   \<and> (\<forall>s. 2 * length s + 1 < n \<longrightarrow> parse_elements n s \<noteq> Inl OutOfFuel)
   \<and> (\<forall>s. 2 * length s + 1 < n \<longrightarrow> parse_members n s \<noteq> Inl OutOfFuel)"
proof (induction n)
  case 0
  then show ?case by simp
next
  case (Suc n)
  then show ?case
    using parse_value_fuel_step[of n] parse_elements_fuel_step[of n]
      parse_members_fuel_step[of n]
    by blast
qed

lemma parse_text_fuel: "parse_text s \<noteq> Inl OutOfFuel"
proof -
  have "2 * length (skip_ws s) < 2 * length s + 2"
    using skip_ws_length[of s] by simp
  with parse_fuel[of "2 * length s + 2"]
  have "parse_value (2 * length s + 2) (skip_ws s) \<noteq> Inl OutOfFuel" by blast
  then show ?thesis by (auto simp: parse_text_def split: sum.splits)
qed

lemma JSON_parse_fuel: "JSON_parse s \<noteq> Inl OutOfFuel"
  using parse_text_fuel[of s] by (auto simp: JSON_parse_def split: sum.splits)


section \<open>Manifests\<close>

lemma update_fresh: "k \<notin> fst ` set al \<Longrightarrow> AList.update k v al = al @ [(k, v)]"
  by (induction al) auto

lemma set_update_subset: "set (AList.update k v al) \<subseteq> insert (k, v) (set al)"
  by (induction al) auto

lemma fold_update_distinct:
  "distinct (map fst kvs) \<Longrightarrow> fst ` set kvs \<inter> fst ` set acc = {}
   \<Longrightarrow> fold (\<lambda>kv acc. AList.update (fst kv) (snd kv) acc) kvs acc = acc @ kvs"
proof (induction kvs arbitrary: acc)
  case Nil
  then show ?case by simp
next
  case (Cons kv kvs)
  have "AList.update (fst kv) (snd kv) acc = acc @ [kv]"
    using Cons.prems(2) by (simp add: update_fresh)
  moreover have "fold (\<lambda>kv acc. AList.update (fst kv) (snd kv) acc) kvs (acc @ [kv]) = (acc @ [kv]) @ kvs"
    by (rule Cons.IH) (use Cons.prems in auto)
  ultimately show ?case by simp
qed

lemma fold_update_keys_distinct:
  "distinct (map fst acc) \<Longrightarrow>
   distinct (map fst (fold (\<lambda>kv acc. AList.update (fst kv) (snd kv) acc) kvs acc))"
  by (induction kvs arbitrary: acc) (simp_all add: distinct_update)

lemma fold_update_subset:
  "set (fold (\<lambda>kv acc. AList.update (fst kv) (snd kv) acc) kvs acc) \<subseteq> set kvs \<union> set acc"
proof (induction kvs arbitrary: acc)
  case Nil
  then show ?case by simp
next
  case (Cons kv kvs)
  from Cons.IH[of "AList.update (fst kv) (snd kv) acc"] set_update_subset[of "fst kv" "snd kv" acc]
  show ?case by auto
qed

lemma to_double_pos:
  assumes "9007199254740992 < i" "i \<le> 18014398509481984"
  shows "to_double i = (if i mod 4 = 1 then i - 1 else if i mod 4 = 3 then i + 1 else i)"
  using assms by (simp add: to_double_def)

lemma to_double_neg: "to_double (- i) = - to_double i"
  by (simp add: to_double_def)

lemma to_double_fixed_pos:
  assumes "0 \<le> i" "i \<le> 18014398509481984"
  shows "0 \<le> to_double i \<and> to_double i \<le> 18014398509481984
       \<and> to_double (to_double i) = to_double i"
proof (cases "i \<le> 9007199254740992")
  case True
  with assms show ?thesis by (simp add: to_double_def)
next
  case False
  then have b: "9007199254740992 < i" by simp
  have m: "i mod 4 = 0 \<or> i mod 4 = 1 \<or> i mod 4 = 2 \<or> i mod 4 = 3" by presburger
  have e1: "i mod 4 = 1 \<Longrightarrow> (i - 1) mod 4 = 0" by presburger
  have e3: "i mod 4 = 3 \<Longrightarrow> (i + 1) mod 4 = 0 \<and> i \<noteq> 18014398509481984" by presburger
  have fx: "j mod 4 = 0 \<Longrightarrow> to_double j = j" for j
    by (simp add: to_double_def) presburger
  from m show ?thesis
  proof (elim disjE)
    assume "i mod 4 = 0"
    with b assms show ?thesis by (simp add: to_double_pos)
  next
    assume a: "i mod 4 = 1"
    with b assms have "to_double i = i - 1" by (simp add: to_double_pos)
    with fx[OF e1[OF a]] b assms show ?thesis by simp
  next
    assume "i mod 4 = 2"
    with b assms show ?thesis by (simp add: to_double_pos)
  next
    assume a: "i mod 4 = 3"
    with b assms have "to_double i = i + 1" by (simp add: to_double_pos)
    with fx[of "i + 1"] e3[OF a] b assms show ?thesis by simp
  qed
qed

lemma to_double_fixed:
  assumes "\<bar>i\<bar> \<le> 18014398509481984"
  shows "\<bar>to_double i\<bar> \<le> 18014398509481984" and "to_double (to_double i) = to_double i"
proof -
  have "\<bar>to_double i\<bar> \<le> 18014398509481984 \<and> to_double (to_double i) = to_double i"
  proof (cases "0 \<le> i")
    case True
    with to_double_fixed_pos[of i] assms show ?thesis by simp
  next
    case False
    with to_double_fixed_pos[of "- i"] assms show ?thesis by (simp add: to_double_neg)
  qed
  then show "\<bar>to_double i\<bar> \<le> 18014398509481984" and "to_double (to_double i) = to_double i"
    by simp_all
qed

lemma own_keys_order_idem: "own_keys_order (own_keys_order kvs) = own_keys_order kvs"
proof -
  let ?f = "\<lambda>kv::string \<times> json. int_of_digits (fst kv)"
  let ?P = "\<lambda>kv::string \<times> json. is_array_index (fst kv)"
  let ?A = "sort_key ?f (filter ?P kvs)" and ?B = "filter (\<lambda>kv. \<not> ?P kv) kvs"
  have a: "filter ?P ?A = ?A" by (simp add: filter_sort)
  have b: "filter ?P ?B = []" by (simp add: filter_empty_conv)
  have c: "filter (\<lambda>kv. \<not> ?P kv) ?A = []" by (simp add: filter_empty_conv)
  have d: "filter (\<lambda>kv. \<not> ?P kv) ?B = ?B" by simp
  have e: "sort_key ?f ?A = ?A" by (rule sort_key_id_if_sorted) simp
  show ?thesis
    unfolding own_keys_order_def[of "sort_key ?f (filter ?P kvs) @ filter (\<lambda>kv. \<not> ?P kv) kvs"]
    unfolding filter_append a b c d
    by (simp add: e own_keys_order_def)
qed

lemma own_keys_order_set: "set (own_keys_order kvs) = set kvs"
  by (auto simp: own_keys_order_def)

lemma distinct_keys_insort:
  "distinct (map fst (insort_key f x xs)) \<longleftrightarrow> fst x \<notin> fst ` set xs \<and> distinct (map fst xs)"
  by (induction xs) (auto simp: set_insort_key)

lemma distinct_keys_sort: "distinct (map fst (sort_key f xs)) \<longleftrightarrow> distinct (map fst xs)"
  by (induction xs) (auto simp: distinct_keys_insort)

lemma own_keys_order_distinct:
  "distinct (map fst kvs) \<Longrightarrow> distinct (map fst (own_keys_order kvs))"
  by (auto simp: own_keys_order_def distinct_keys_sort distinct_map_filter)

lemma filter_update_other:
  "\<not> P k \<Longrightarrow> filter (\<lambda>kv. P (fst kv)) (AList.update k v al) = filter (\<lambda>kv. P (fst kv)) al"
  by (induction al) auto

lemma filter_update_same:
  "P k \<Longrightarrow> filter (\<lambda>kv. P (fst kv)) (AList.update k v al) = AList.update k v (filter (\<lambda>kv. P (fst kv)) al)"
  by (induction al) auto

lemma update_append_right: "k \<notin> fst ` set xs \<Longrightarrow> AList.update k v (xs @ ys) = xs @ AList.update k v ys"
  by (induction xs) auto

lemma own_keys_order_update:
  assumes "\<not> is_array_index k" "own_keys_order kvs = kvs"
  shows "own_keys_order (AList.update k v kvs) = AList.update k v kvs"
proof -
  let ?f = "\<lambda>kv::string \<times> json. int_of_digits (fst kv)"
  let ?A = "sort_key ?f (filter (\<lambda>kv. is_array_index (fst kv)) kvs)"
  let ?B = "filter (\<lambda>kv. \<not> is_array_index (fst kv)) kvs"
  have "own_keys_order (AList.update k v kvs) = ?A @ AList.update k v ?B"
    using filter_update_other[of is_array_index k v kvs, OF assms(1)]
      filter_update_same[of "\<lambda>k. \<not> is_array_index k" k v kvs] assms(1)
    by (simp add: own_keys_order_def)
  also have "\<dots> = AList.update k v (?A @ ?B)"
    by (rule update_append_right[symmetric]) (use assms(1) in auto)
  also have "?A @ ?B = kvs" using assms(2) by (simp add: own_keys_order_def)
  finally show ?thesis .
qed

lemma wf_json_normalise: "supported u \<Longrightarrow> wf_json (normalise u)"
proof (induction u)
  case (JNum i)
  then show ?case using to_double_fixed[of i] by simp
next
  case (JArr xs)
  then show ?case by (auto simp: list_all_iff)
next
  case (JObj kvs)
  let ?m = "map (\<lambda>kv. (fst kv, normalise (snd kv))) kvs"
  let ?r = "fold (\<lambda>kv acc. AList.update (fst kv) (snd kv) acc) ?m []"
  have d: "distinct (map fst ?r)" by (rule fold_update_keys_distinct) simp
  have "wf_json (snd kv)" if "kv \<in> set (own_keys_order ?r)" for kv
  proof -
    from that fold_update_subset[of ?m "[]"] have "kv \<in> set ?m"
      by (auto simp: own_keys_order_set)
    then obtain kv0 where kv0: "kv0 \<in> set kvs" "kv = (fst kv0, normalise (snd kv0))" by auto
    with JObj.prems have s: "supported (snd kv0)" by (auto simp: list_all_iff)
    have "snd kv0 \<in> Basic_BNFs.snds kv0" by (cases kv0) simp
    with JObj.IH kv0(1) s have "wf_json (normalise (snd kv0))" by blast
    with kv0(2) show ?thesis by simp
  qed
  with own_keys_order_distinct[OF d] own_keys_order_idem[of ?r] show ?case
    by (simp add: list_all_iff)
qed simp_all

lemma wf_json_fixed: "wf_json v \<Longrightarrow> normalise v = v \<and> supported v"
proof (induction v)
  case (JArr xs)
  then show ?case by (auto simp: list_all_iff intro: map_idI)
next
  case (JObj kvs)
  have IH: "normalise (snd kv) = snd kv \<and> supported (snd kv)" if "kv \<in> set kvs" for kv
  proof -
    have "snd kv \<in> Basic_BNFs.snds kv" by (cases kv) simp
    moreover from that JObj.prems have "wf_json (snd kv)" by (auto simp: list_all_iff)
    ultimately show ?thesis using JObj.IH that by blast
  qed
  then have "map (\<lambda>kv. (fst kv, normalise (snd kv))) kvs = kvs"
    by (intro map_idI) simp
  moreover have "fold (\<lambda>kv acc. AList.update (fst kv) (snd kv) acc) kvs [] = [] @ kvs"
    by (rule fold_update_distinct) (use JObj.prems in auto)
  ultimately show ?case using IH JObj.prems by (auto simp: list_all_iff)
qed simp_all

lemma JSON_parse_wf: "JSON_parse s = Inr v \<Longrightarrow> wf_json v"
  by (auto simp: JSON_parse_def wf_json_normalise split: sum.splits if_splits)

lemma JSON_parse_stringify: "wf_json v \<Longrightarrow> JSON_parse (JSON_stringify v @ [CHR 0x0A]) = Inr v"
  using wf_json_fixed[of v] by (simp add: JSON_parse_def parse_text_stringify)

lemma name_not_index: "\<not> is_array_index ''name''"
  by (simp add: is_array_index_def is_digit_def)

lemma set_name_wf: "wf_json pkg \<Longrightarrow> set_name pkg n = Inr pkg' \<Longrightarrow> wf_json pkg'"
proof (cases pkg)
  case (JObj kvs)
  assume w: "wf_json pkg" and s: "set_name pkg n = Inr pkg'"
  have "wf_json (snd kv)" if "kv \<in> set (AList.update ''name'' (JStr n) kvs)" for kv
  proof -
    from that set_update_subset[of "''name''" "JStr n" kvs]
    consider "kv = (''name'', JStr n)" | "kv \<in> set kvs" by auto
    then show ?thesis
    proof cases
      case 1
      then show ?thesis by simp
    next
      case 2
      with w JObj show ?thesis by (simp add: list_all_iff)
    qed
  qed
  moreover have "own_keys_order (AList.update ''name'' (JStr n) kvs) = AList.update ''name'' (JStr n) kvs"
    using w JObj by (intro own_keys_order_update name_not_index) simp
  ultimately show ?thesis using w s JObj by (auto simp: list_all_iff distinct_update)
qed auto

lemma update_twice: "AList.update k v (AList.update k v al) = AList.update k v al"
  by (rule update_same) (simp add: update_conv')

lemma set_name_twice: "set_name pkg n = Inr pkg' \<Longrightarrow> set_name pkg' n = Inr pkg'"
  by (cases pkg) (auto simp: update_twice)

lemma new_content_fixed:
  assumes "new_content dirname file text = Inr text'"
  shows "new_content dirname file text' = Inr text'"
proof -
  from assms obtain pkg pkg' where p: "JSON_parse text = Inr pkg"
    and s: "set_name pkg (pkg_name dirname file) = Inr pkg'"
    and t: "text' = JSON_stringify pkg' @ [CHR 0x0A]"
    by (auto simp: new_content_def split: sum.splits)
  have "wf_json pkg'" using JSON_parse_wf[OF p] s by (rule set_name_wf)
  then have "JSON_parse text' = Inr pkg'" unfolding t by (rule JSON_parse_stringify)
  with set_name_twice[OF s] t show ?thesis by (simp add: new_content_def)
qed

lemma nameProject_Inr:
  assumes "nameProject dirname file s = (Inr changed, s1)"
  shows "\<exists>old c. readFile (files s) (path_join [file, ''package.json'']) = Inr old
           \<and> new_content dirname file old = Inr c \<and> changed = (old \<noteq> c)
           \<and> (old \<noteq> c \<longrightarrow> valid_utf8 c)
           \<and> s1 = (if old \<noteq> c
                    then s\<lparr>files := AList.update (path_join [file, ''package.json'']) (File c) (files s),
                           trace := trace s @ [Written (path_join [file, ''package.json'']) c,
                                               Logged (path_join [file, ''package.json''])]\<rparr>
                    else s)"
  using assms
  by (auto simp: nameProject_def writeIfNeeded_def writeFile_def readFile_def Let_def
      split: sum.splits if_splits option.splits entry.splits)

lemma readFile_update:
  "readFile fs p = Inr old \<Longrightarrow> valid_utf8 c \<Longrightarrow> readFile (AList.update p (File c) fs) p = Inr c"
  by (auto simp: readFile_def stat_def update_conv' split: if_splits option.splits entry.splits)

lemma readFile_update_other:
  "q \<noteq> p \<Longrightarrow> readFile (AList.update p e fs) q = readFile fs q"
  by (simp add: readFile_def stat_def update_conv')

lemma nameProject_stable:
  "readFile (files s) (path_join [file, ''package.json'']) = Inr c
   \<Longrightarrow> new_content dirname file c = Inr c \<Longrightarrow> nameProject dirname file s = (Inr False, s)"
  by (simp add: nameProject_def writeIfNeeded_def)

lemma nameProject_leaves_stable:
  assumes "nameProject dirname file s = (Inr changed, s1)"
  shows "\<exists>c. readFile (files s1) (path_join [file, ''package.json'']) = Inr c
           \<and> new_content dirname file c = Inr c"
proof -
  from nameProject_Inr[OF assms] obtain old c where
    r: "readFile (files s) (path_join [file, ''package.json'']) = Inr old"
    and n: "new_content dirname file old = Inr c"
    and v: "old \<noteq> c \<longrightarrow> valid_utf8 c"
    and s1: "s1 = (if old \<noteq> c
                    then s\<lparr>files := AList.update (path_join [file, ''package.json'']) (File c) (files s),
                           trace := trace s @ [Written (path_join [file, ''package.json'']) c,
                                               Logged (path_join [file, ''package.json''])]\<rparr>
                    else s)" by blast
  show ?thesis
  proof (cases "old = c")
    case True
    with r n s1 show ?thesis by auto
  next
    case False
    with s1 v readFile_update[OF r, of c] new_content_fixed[OF n] show ?thesis by auto
  qed
qed




section \<open>Projects listed twice\<close>

lemma writes_to_simps [simp]:
  "writes_to p [] = []"
  "writes_to p (t1 @ t2) = writes_to p t1 @ writes_to p t2"
  "writes_to p (Written q c # t) = (if q = p then Written q c # writes_to p t else writes_to p t)"
  "writes_to p (Logged q # t) = writes_to p t"
  by (simp_all add: writes_to_def)

lemma logs_of_simps [simp]:
  "logs_of p [] = []"
  "logs_of p (t1 @ t2) = logs_of p t1 @ logs_of p t2"
  "logs_of p (Written q c # t) = logs_of p t"
  "logs_of p (Logged q # t) = (if q = p then Logged q # logs_of p t else logs_of p t)"
  by (auto simp: logs_of_def)

lemma settled_iff:
  "settled dirname file fs \<longleftrightarrow>
     (\<exists>c. readFile fs (path_join [file, ''package.json'']) = Inr c \<and> new_content dirname file c = Inr c)"
  by (auto simp: settled_def split: sum.splits)

lemma nameProject_settled: "settled dirname file (files s) \<Longrightarrow> nameProject dirname file s = (Inr False, s)"
  using nameProject_stable by (auto simp: settled_iff)

lemma nameProject_settles: "nameProject dirname file s = (Inr changed, s1) \<Longrightarrow> settled dirname file (files s1)"
  using nameProject_leaves_stable by (auto simp: settled_iff)

lemma nameProject_other_settled:
  assumes "nameProject dirname f s = (r1, s1)"
    and "path_join [f, ''package.json''] \<noteq> path_join [p, ''package.json'']"
    and "settled dirname p (files s)"
  shows "settled dirname p (files s1)"
  using nameProject_cases[OF assms(1)] assms(2,3)
  by (auto simp: settled_def readFile_update_other)

lemma updatePkgNames_once:
  assumes "\<forall>f \<in> set apps. path_join [f, ''package.json''] = path_join [p, ''package.json''] \<longrightarrow> f = p"
    and "updatePkgNames dirname apps s = (r, s')"
  shows "\<exists>t. trace s' = trace s @ t
           \<and> length (writes_to (path_join [p, ''package.json'']) t) \<le> 1
           \<and> length (logs_of (path_join [p, ''package.json'']) t) \<le> 1
           \<and> (settled dirname p (files s) \<longrightarrow>
                writes_to (path_join [p, ''package.json'']) t = []
                \<and> logs_of (path_join [p, ''package.json'']) t = [])"
  using assms
proof (induction apps arbitrary: s)
  case Nil
  then show ?case by simp
next
  case (Cons f rest)
  let ?P = "path_join [p, ''package.json'']"
  obtain r1 s1 where n: "nameProject dirname f s = (r1, s1)" by force
  have inj: "\<forall>f \<in> set rest. path_join [f, ''package.json''] = ?P \<longrightarrow> f = p"
    using Cons.prems(1) by simp
  show ?case
  proof (cases r1)
    case (Inl e)
    with Cons.prems(2) n have s': "s' = s1" by simp
    from nameProject_cases[OF n] Inl have "s1 = s" by auto
    with s' show ?thesis by simp
  next
    case (Inr changed)
    with Cons.prems(2) n have rest: "updatePkgNames dirname rest s1 = (r, s')" by simp
    from Cons.IH[OF inj rest] obtain t2 where t2: "trace s' = trace s1 @ t2"
      "length (writes_to ?P t2) \<le> 1" "length (logs_of ?P t2) \<le> 1"
      "settled dirname p (files s1) \<longrightarrow> writes_to ?P t2 = [] \<and> logs_of ?P t2 = []" by blast
    show ?thesis
    proof (cases "path_join [f, ''package.json''] = ?P")
      case True
      with Cons.prems(1) have fp: "f = p" by simp
      have st: "settled dirname p (files s1)"
        using nameProject_settles n Inr fp by blast
      with t2 have none: "writes_to ?P t2 = []" "logs_of ?P t2 = []" by simp_all
      from nameProject_cases[OF n] consider "s1 = s" "r1 \<noteq> Inr True"
        | c where "trace s1 = trace s @ [Written ?P c, Logged ?P]" "r1 = Inr True"
        using True by auto
      then show ?thesis
      proof cases
        case 1
        with t2 none show ?thesis by simp
      next
        case 2
        have "\<not> settled dirname p (files s)"
          using nameProject_settled[of dirname p s] n fp 2(2) by auto
        moreover have "trace s' = trace s @ ([Written ?P c, Logged ?P] @ t2)"
          using 2 t2 by simp
        ultimately show ?thesis using none by (intro exI[of _ "[Written ?P c, Logged ?P] @ t2"]) simp
      qed
    next
      case False
      from nameProject_trace[OF n] obtain t1 where t1: "trace s1 = trace s @ t1"
        "\<forall>e\<in>set t1. e = Logged (path_join [f, ''package.json''])
                 \<or> (\<exists>c. e = Written (path_join [f, ''package.json'']) c)" by blast
      have e1: "writes_to ?P t1 = []" "logs_of ?P t1 = []"
        using t1(2) False by (auto simp: writes_to_def logs_of_def filter_empty_conv)
      have keep: "settled dirname p (files s) \<longrightarrow> settled dirname p (files s1)"
        using nameProject_other_settled[OF n False] by blast
      have "trace s' = trace s @ (t1 @ t2)" using t1 t2 by simp
      then show ?thesis using e1 t2 keep by (intro exI[of _ "t1 @ t2"]) simp
    qed
  qed
qed

lemma count_list_filter: "count_list (filter P xs) x = (if P x then count_list xs x else 0)"
  by (induction xs) auto

lemma count_list_distinct: "distinct xs \<Longrightarrow> x \<in> set xs \<Longrightarrow> count_list xs x = 1"
  by (induction xs) (auto simp: count_list_0_iff)

lemma child_names_keys:
  "n \<in> set (concat (map (\<lambda>(k, e). child_name d k) fs)) \<Longrightarrow> dir_prefix d @ n \<in> fst ` set fs"
  by (auto simp: child_name_def prefix_def split: if_splits) force

lemma child_names_distinct:
  "distinct (map fst fs) \<Longrightarrow> distinct (concat (map (\<lambda>(k, e). child_name d k) fs))"
proof (induction fs)
  case Nil
  then show ?case by simp
next
  case (Cons x fs)
  obtain k e where x: "x = (k, e)" by force
  have "n \<notin> set (concat (map (\<lambda>(k, e). child_name d k) fs))" if "n \<in> set (child_name d k)" for n
  proof
    assume "n \<in> set (concat (map (\<lambda>(k, e). child_name d k) fs))"
    then have "dir_prefix d @ n \<in> fst ` set fs" by (rule child_names_keys)
    moreover from that have "k = dir_prefix d @ n"
      by (auto simp: child_name_def prefix_def split: if_splits)
    ultimately show False using Cons.prems x by auto
  qed
  moreover have "distinct (child_name d k)" by (simp add: child_name_def)
  ultimately show ?case using Cons x by auto
qed

lemma readDir_distinct: "distinct (map fst fs) \<Longrightarrow> readDir fs d = Inr ns \<Longrightarrow> distinct ns"
  by (auto simp: readDir_def readdir_def Let_def child_names_distinct
      split: if_splits option.splits entry.splits)

lemma examples_distinct:
  assumes "is_absolute dirname" "distinct (map fst fs)" "examples dirname fs = Inr exa"
  shows "distinct exa"
proof -
  from assms(3) obtain ns where ns: "readDir fs (here dirname ''../examples'') = Inr ns"
    and exa: "exa = map (\<lambda>dir. here dirname (''../examples/'' @ dir)) ns"
    by (auto simp: examples_def split: sum.splits)
  have form: "here dirname (''../examples/'' @ d) = dir_prefix (workshopRoot dirname) @ ''examples/'' @ d"
    if "d \<in> set ns" for d
  proof -
    have pd: "proper_name d" using readDir_names[OF ns that] by simp
    have "here dirname (''../'' @ join_with ''/'' [''examples'', d])
          = dir_prefix (workshopRoot dirname) @ join_with ''/'' [''examples'', d]"
      by (rule here_form) (use assms(1) pd in simp_all)
    then show ?thesis by simp
  qed
  have "inj_on (\<lambda>dir. here dirname (''../examples/'' @ dir)) (set ns)"
  proof (rule inj_onI)
    fix x y assume "x \<in> set ns" "y \<in> set ns"
      and "here dirname (''../examples/'' @ x) = here dirname (''../examples/'' @ y)"
    then have "dir_prefix (workshopRoot dirname) @ ''examples/'' @ x
        = dir_prefix (workshopRoot dirname) @ ''examples/'' @ y"
      by (metis form)
    then show "x = y" by simp
  qed
  with readDir_distinct[OF assms(2) ns] show ?thesis by (simp add: exa distinct_map)
qed

lemma example_not_exercise:
  assumes "is_absolute dirname" "examples dirname fs = Inr exa" "exerciseApps dirname fs = Inr exe"
    and "p \<in> set exa"
  shows "p \<notin> set exe"
proof
  assume "p \<in> set exe"
  from exerciseApps_form[OF assms(1,3) this] obtain e v where
    "p = dir_prefix (workshopRoot dirname) @ ''exercises/'' @ e @ ''/'' @ v" by blast
  moreover from examples_form[OF assms(1,2,4)] obtain d where
    "p = dir_prefix (workshopRoot dirname) @ ''examples/'' @ d" by blast
  ultimately have "''examples/'' @ d = ''exercises/'' @ e @ ''/'' @ v" by simp
  then show False by simp
qed

section \<open>The mirror over all variants\<close>

text \<open>
  A copy that ends without an error keeps every entry that was there and creates its
  destination; so one round of \<open>copyTestFiles\<close> keeps every entry that is not
  strictly below the \<open>tests\<close> directory it replaces. All variants lie at the same
  depth, so the \<open>tests\<close> entry of one solution is never strictly below the
  \<open>tests\<close> directory of a problem variant.
\<close>

lemma fold_put_entry_Inl: "fold put_entry es (Inl e) = Inl e"
  by (induction es) auto

lemma put_entry_keeps:
  "put_entry x (Inr fs) = Inr fs' \<Longrightarrow> stat fs p \<noteq> None \<Longrightarrow> stat fs' p \<noteq> None"
  by (cases x) (auto simp: stat_def update_conv' map_add_def split: option.splits entry.splits if_splits)

lemma put_entry_puts: "put_entry x (Inr fs) = Inr fs' \<Longrightarrow> stat fs' (fst x) \<noteq> None"
  by (cases x) (auto simp: stat_def update_conv' map_add_def split: option.splits entry.splits if_splits)

lemma fold_put_entry_keeps:
  "fold put_entry es (Inr fs) = Inr fs' \<Longrightarrow> stat fs p \<noteq> None \<Longrightarrow> stat fs' p \<noteq> None"
proof (induction es arbitrary: fs)
  case Nil
  then show ?case by simp
next
  case (Cons x es)
  show ?case
  proof (cases "put_entry x (Inr fs)")
    case (Inl e)
    with Cons.prems(1) show ?thesis by (simp add: fold_put_entry_Inl)
  next
    case (Inr fs1)
    with Cons.prems(1) have "fold put_entry es (Inr fs1) = Inr fs'" by simp
    moreover have "stat fs1 p \<noteq> None" by (rule put_entry_keeps[OF Inr Cons.prems(2)])
    ultimately show ?thesis by (rule Cons.IH)
  qed
qed

lemma fold_put_entry_puts:
  "fold put_entry es (Inr fs) = Inr fs' \<Longrightarrow> x \<in> set es \<Longrightarrow> stat fs' (fst x) \<noteq> None"
proof (induction es arbitrary: fs)
  case Nil
  then show ?case by simp
next
  case (Cons y es)
  show ?case
  proof (cases "put_entry y (Inr fs)")
    case (Inl e)
    with Cons.prems(1) show ?thesis by (simp add: fold_put_entry_Inl)
  next
    case (Inr fs1)
    with Cons.prems(1) have f: "fold put_entry es (Inr fs1) = Inr fs'" by simp
    show ?thesis
    proof (cases "x = y")
      case True
      with put_entry_puts[OF Inr] have "stat fs1 (fst x) \<noteq> None" by simp
      with f show ?thesis by (rule fold_put_entry_keeps)
    next
      case False
      with Cons.prems(2) have "x \<in> set es" by simp
      with f show ?thesis by (rule Cons.IH)
    qed
  qed
qed

lemma cp_keeps: "cp fs src dest = Inr fs' \<Longrightarrow> stat fs p \<noteq> None \<Longrightarrow> stat fs' p \<noteq> None"
  by (auto simp: cp_def split: option.splits if_splits entry.splits dest: fold_put_entry_keeps)

lemma cp_dest_exists:
  assumes "cp fs src dest = Inr fs'" "src \<noteq> ''/''"
  shows "stat fs' dest \<noteq> None"
proof -
  let ?es = "map (\<lambda>(k, e). (dest @ drop (length src) k, e)) (filter (\<lambda>(k, e). under src k) fs)"
  from assms(1) obtain e where e: "stat fs src = Some e" and f: "fold put_entry ?es (Inr fs) = Inr fs'"
    by (auto simp: cp_def split: option.splits if_splits entry.splits)
  from e assms(2) have "(src, e) \<in> set fs" by (auto simp: stat_def dest: map_of_SomeD)
  then have "(dest @ drop (length src) src, e) \<in> set ?es" by (force simp: under_def)
  then have "(dest, e) \<in> set ?es" by simp
  from fold_put_entry_puts[OF f this] show ?thesis by simp
qed

lemma rm_keeps: "\<not> under d p \<Longrightarrow> stat (rm fs d) p = stat fs p"
  using map_of_filter_keys[of "\<lambda>k. \<not> under d k" p fs] by (simp add: rm_def stat_def)

lemma mirrorTests_keeps:
  assumes run: "mirrorTests a s = (None, s1)"
    and p: "stat (files s) p \<noteq> None"
    and ca: "clean a"
    and np: "\<not> prefix (a @ ''/tests/'') p"
  shows "stat (files s1) p \<noteq> None"
proof (cases "js_includes a ''problem''
              \<and> exists (files s) (path_join [js_replace ''problem'' ''solution'' a, ''tests''])")
  case False
  with run have "s1 = s" by (auto simp: mirrorTests_def Let_def split: if_splits)
  with p show ?thesis by simp
next
  case True
  let ?sol = "js_replace ''problem'' ''solution'' a"
  let ?src = "?sol @ ''/tests''" and ?dest = "a @ ''/tests''"
  have csol: "clean ?sol" using clean_replace[OF ca] True by simp
  have src: "path_join [?sol, ''tests''] = ?src" and dest: "path_join [a, ''tests''] = ?dest"
    using clean_join(1)[OF csol, of "''tests''"] clean_join(1)[OF ca, of "''tests''"] by simp_all
  have ne: "?src \<noteq> ''/''" "?dest \<noteq> ''/''"
    using clean_not_root[OF ca] clean_not_root[OF csol] by (auto simp: append_eq_Cons_conv)
  define fs1 where "fs1 = (if exists (files s) ?dest then rm (files s) ?dest else files s)"
  from run True obtain fs' where cp: "cp fs1 ?src ?dest = Inr fs'" and f: "files s1 = fs'"
    by (auto simp: mirrorTests_def Let_def src dest fs1_def split: if_splits sum.splits)
  show ?thesis
  proof (cases "p = ?dest")
    case True
    with cp_dest_exists[OF cp ne(1)] f show ?thesis by simp
  next
    case False
    with np ne(2) have "\<not> under ?dest p" by (simp add: under_def dir_prefix_def)
    then have "stat fs1 p = stat (files s) p" by (simp add: fs1_def rm_keeps)
    with p have "stat fs1 p \<noteq> None" by simp
    with cp_keeps[OF cp] f show ?thesis by simp
  qed
qed

lemma mirrorTests_copies:
  assumes run: "mirrorTests a s = (None, s1)"
    and inc: "js_includes a ''problem''"
    and ex: "exists (files s) (path_join [js_replace ''problem'' ''solution'' a, ''tests''])"
  shows "\<exists>t. trace s1 = trace s @ t
           \<and> Copied (path_join [js_replace ''problem'' ''solution'' a, ''tests''])
                     (path_join [a, ''tests'']) \<in> set t"
  using assms by (auto simp: mirrorTests_def Let_def split: if_splits sum.splits)

lemma slashes_replace:
  "count_list (js_replace ''problem'' ''solution'' a) CHR ''/'' = count_list a CHR ''/''"
proof (cases "js_includes a ''problem''")
  case True
  from js_replace_form[OF True, of "''solution''"] obtain pre post where
    "a = pre @ ''problem'' @ post" "js_replace ''problem'' ''solution'' a = pre @ ''solution'' @ post"
    by blast
  then show ?thesis by simp
next
  case False
  then show ?thesis by (simp add: js_replace_absent)
qed

lemma slashes_variant:
  assumes "is_absolute dirname" "exerciseApps dirname fs = Inr exe" "a \<in> set exe"
  shows "count_list a CHR ''/'' = count_list (dir_prefix (workshopRoot dirname)) CHR ''/'' + 2"
proof -
  from exerciseApps_form[OF assms] obtain e v where
    e: "proper_name e" and v: "proper_name v"
    and a: "a = dir_prefix (workshopRoot dirname) @ ''exercises/'' @ e @ ''/'' @ v" by blast
  from e v have "count_list e CHR ''/'' = 0" "count_list v CHR ''/'' = 0"
    by (simp_all add: proper_name_def count_list_0_iff)
  then show ?thesis by (simp add: a)
qed

lemma variant_clean:
  assumes "is_absolute dirname" "exerciseApps dirname fs = Inr exe" "a \<in> set exe"
  shows "clean a"
proof -
  from exerciseApps_form[OF assms] obtain e v where
    e: "proper_name e" and v: "proper_name v"
    and a: "a = dir_prefix (workshopRoot dirname) @ ''exercises/'' @ e @ ''/'' @ v" by blast
  have "list_all proper_name [''exercises'', e, v]" using e v by simp
  from here_form(2)[OF assms(1) this] show ?thesis by (simp add: a)
qed

lemma stat_update_keeps: "stat fs p \<noteq> None \<Longrightarrow> stat (AList.update k v fs) p \<noteq> None"
  by (auto simp: stat_def update_conv')

lemma updatePkgNames_keeps:
  "updatePkgNames dirname apps s = (r, s1) \<Longrightarrow> stat (files s) p \<noteq> None
   \<Longrightarrow> stat (files s1) p \<noteq> None"
proof (induction apps arbitrary: s)
  case Nil
  then show ?case by simp
next
  case (Cons f rest)
  obtain r1 s2 where n: "nameProject dirname f s = (r1, s2)" by force
  from nameProject_cases[OF n] Cons.prems(2) have k: "stat (files s2) p \<noteq> None"
    using stat_update_keeps[of "files s" p] by auto
  show ?case
  proof (cases r1)
    case (Inl e)
    with Cons.prems(1) n k show ?thesis by simp
  next
    case (Inr b)
    with Cons.prems(1) n have "updatePkgNames dirname rest s2 = (r, s1)" by simp
    from Cons.IH[OF this k] show ?thesis .
  qed
qed

lemma tests_not_below_same_depth:
  assumes "count_list b CHR ''/'' = count_list a CHR ''/''"
  shows "\<not> prefix (a @ ''/tests/'') (b @ ''/tests'')"
proof
  assume "prefix (a @ ''/tests/'') (b @ ''/tests'')"
  then obtain r where "b @ ''/tests'' = (a @ ''/tests/'') @ r" by (auto simp: prefix_def)
  then have "count_list (b @ ''/tests'') CHR ''/'' = count_list ((a @ ''/tests/'') @ r) CHR ''/''"
    by simp
  with assms show False by simp
qed

lemma mirrorTests_makes_tests:
  assumes run: "mirrorTests a s = (None, s1)"
    and inc: "js_includes a ''problem''"
    and ex: "exists (files s) (path_join [js_replace ''problem'' ''solution'' a, ''tests''])"
    and ca: "clean a"
  shows "stat (files s1) (path_join [a, ''tests'']) \<noteq> None"
proof -
  let ?sol = "js_replace ''problem'' ''solution'' a"
  have csol: "clean ?sol" by (rule clean_replace[OF ca inc])
  have src: "path_join [?sol, ''tests''] = ?sol @ ''/tests''"
    using clean_join(1)[OF csol, of "''tests''"] by simp
  have ne: "?sol @ ''/tests'' \<noteq> ''/''"
    using clean_not_root[OF csol] by (auto simp: append_eq_Cons_conv)
  from run inc ex obtain fs1 fs' where "cp fs1 (path_join [?sol, ''tests'']) (path_join [a, ''tests'']) = Inr fs'"
    and "files s1 = fs'"
    by (auto simp: mirrorTests_def Let_def split: if_splits sum.splits)
  with cp_dest_exists[of fs1 "?sol @ ''/tests''" "path_join [a, ''tests'']" fs'] ne src
  show ?thesis by simp
qed

lemma copyTestFiles_keeps:
  assumes "\<forall>a \<in> set as. clean a \<and> \<not> prefix (a @ ''/tests/'') p"
    and "copyTestFiles as s = (None, s')"
    and "stat (files s) p \<noteq> None"
  shows "stat (files s') p \<noteq> None"
  using assms
proof (induction as arbitrary: s)
  case Nil
  then show ?case by simp
next
  case (Cons a rest)
  obtain r1 s1 where m: "mirrorTests a s = (r1, s1)" by force
  with Cons.prems(2) have r1: "r1 = None" and rest: "copyTestFiles rest s1 = (None, s')"
    by (auto split: option.splits)
  from Cons.prems(1) have "clean a" "\<not> prefix (a @ ''/tests/'') p" by simp_all
  from mirrorTests_keeps[OF m[unfolded r1] Cons.prems(3) this] have "stat (files s1) p \<noteq> None" .
  with Cons.IH[OF _ rest] Cons.prems(1) show ?case by simp
qed

lemma copyTestFiles_mirrors:
  assumes "\<forall>a \<in> set as. clean a \<and> count_list a CHR ''/'' = n"
    and "app \<in> set as" and "js_includes app ''problem''"
    and "exists (files s) (path_join [js_replace ''problem'' ''solution'' app, ''tests''])"
    and "copyTestFiles as s = (None, s')"
  shows "\<exists>t. trace s' = trace s @ t
           \<and> Copied (path_join [js_replace ''problem'' ''solution'' app, ''tests''])
                     (path_join [app, ''tests'']) \<in> set t
           \<and> exists (files s') (path_join [app, ''tests''])"
  using assms
proof (induction as arbitrary: s)
  case Nil
  then show ?case by simp
next
  case (Cons a rest)
  let ?P = "path_join [js_replace ''problem'' ''solution'' app, ''tests'']"
  let ?D = "path_join [app, ''tests'']"
  let ?C = "Copied ?P ?D"
  obtain r1 s1 where m: "mirrorTests a s = (r1, s1)" by force
  with Cons.prems(5) have r1: "r1 = None" and rest: "copyTestFiles rest s1 = (None, s')"
    by (auto split: option.splits)
  from Cons.prems(1,2) have capp: "clean app" and ca: "clean a"
    and cnt: "count_list app CHR ''/'' = count_list a CHR ''/''" by auto
  have D: "?D = app @ ''/tests''" using clean_join(1)[OF capp, of "''tests''"] by simp
  have P: "?P = js_replace ''problem'' ''solution'' app @ ''/tests''"
    using clean_join(1)[OF clean_replace[OF capp Cons.prems(3)], of "''tests''"] by simp
  have all: "\<forall>a \<in> set rest. clean a \<and> count_list a CHR ''/'' = n" using Cons.prems(1) by simp
  show ?case
  proof (cases "a = app")
    case True
    from mirrorTests_copies[OF m[unfolded r1 True] Cons.prems(3,4)] obtain t1 where
      t1: "trace s1 = trace s @ t1" "?C \<in> set t1" by blast
    from copyTestFiles_trace[OF rest] obtain t2 where "trace s' = trace s1 @ t2" by blast
    with t1 have tr: "trace s' = trace s @ (t1 @ t2) \<and> ?C \<in> set (t1 @ t2)" by simp
    have d1: "stat (files s1) ?D \<noteq> None"
      by (rule mirrorTests_makes_tests[OF m[unfolded r1 True] Cons.prems(3,4) capp])
    have "\<forall>a \<in> set rest. clean a \<and> \<not> prefix (a @ ''/tests/'') ?D"
      using all Cons.prems(1,2) tests_not_below_same_depth[of app] by (auto simp: D)
    from copyTestFiles_keeps[OF this rest d1] have "exists (files s') ?D"
      by (simp add: exists_def D)
    with tr show ?thesis by blast
  next
    case False
    with Cons.prems(2) have in_rest: "app \<in> set rest" by simp
    have "stat (files s) ?P \<noteq> None" using Cons.prems(4) by (simp add: exists_def split: if_splits)
    from mirrorTests_keeps[OF m[unfolded r1] this ca]
      tests_not_below_same_depth[of "js_replace ''problem'' ''solution'' app" a]
      slashes_replace[of app] cnt
    have "stat (files s1) ?P \<noteq> None" by (simp add: P)
    then have ex: "exists (files s1) ?P" by (simp add: exists_def P)
    from Cons.IH[OF all in_rest Cons.prems(3) ex rest] obtain t2 where
      t2: "trace s' = trace s1 @ t2" "?C \<in> set t2" "exists (files s') ?D" by blast
    from mirrorTests_trace[OF m] obtain t1 where "trace s1 = trace s @ t1" by blast
    with t2 have "trace s' = trace s @ (t1 @ t2) \<and> ?C \<in> set (t1 @ t2)" by simp
    with t2(3) show ?thesis by blast
  qed
qed

section \<open>The manifest name\<close>

text \<open>
  Claim C1. The rule of the claim and the example of the claim, which is the example of
  the comment above \<open>relativeToWorkshopRoot\<close> in the script, do not agree, and the
  script follows the rule. For the project \<open>exercises/01-goo/problem.01-great\<close>
  the comment and the claim give the name \<open>exercises__sep__01-goo.problem__sep__01-great\<close>;
  the script strips the workshop root, turns every slash into \<open>__sep__\<close> and leaves
  the dot a dot, so the name it writes into the manifest is
  \<open>exercises__sep__01-goo__sep__problem.01-great\<close>.
\<close>

theorem pkg_name_example_diverges:
  "appsWithPkgJson ''/repo/epicshop''
        [(''/repo'', Dir), (''/repo/exercises'', Dir), (''/repo/exercises/01-goo'', Dir),
         (''/repo/exercises/01-goo/problem.01-great'', Dir),
         (''/repo/exercises/01-goo/problem.01-great/package.json'', File ''{}'')]
       = Inr [''/repo/exercises/01-goo/problem.01-great'']
   \<and> relativeToWorkshopRoot ''/repo/epicshop'' ''/repo/exercises/01-goo/problem.01-great''
       = ''exercises/01-goo/problem.01-great''
   \<and> pkg_name ''/repo/epicshop'' ''/repo/exercises/01-goo/problem.01-great''
       = ''exercises__sep__01-goo__sep__problem.01-great''
   \<and> pkg_name ''/repo/epicshop'' ''/repo/exercises/01-goo/problem.01-great''
       \<noteq> ''exercises__sep__01-goo.problem__sep__01-great''
   \<and> new_content ''/repo/epicshop'' ''/repo/exercises/01-goo/problem.01-great'' ''{}''
       = Inr (''{'' @ [CHR 0x0A] @ ''  '' @ [CHR 0x22] @ ''name'' @ [CHR 0x22] @ '': '' @ [CHR 0x22]
              @ ''exercises__sep__01-goo__sep__problem.01-great'' @ [CHR 0x22] @ [CHR 0x0A] @ ''}''
              @ [CHR 0x0A])"
  by code_simp

text \<open>
  The rule itself holds of the script. In a workshop whose root is not the root of the
  filesystem, every project directory with a manifest is the workshop root, a separator,
  and a relative path that starts with \<open>examples/\<close> or \<open>exercises/\<close>; the name the
  script computes for it is that relative path with every slash and every backslash
  replaced by \<open>__sep__\<close>, and that name is what the text written for a manifest
  object holds under \<open>name\<close>.
\<close>

lemma pkg_name_of_project:
  assumes "is_absolute dirname" and "workshopRoot dirname \<noteq> ''/''"
    and "appsWithPkgJson dirname fs = Inr apps" and "file \<in> set apps"
  shows "\<exists>rel. file = workshopRoot dirname @ ''/'' @ rel
           \<and> (prefix ''examples/'' rel \<or> prefix ''exercises/'' rel)
           \<and> pkg_name dirname file = replace_seps rel
           \<and> (\<forall>text kvs. JSON_parse text = Inr (JObj kvs) \<longrightarrow>
                 new_content dirname file text
                   = Inr (JSON_stringify (JObj (AList.update ''name'' (JStr (replace_seps rel)) kvs))
                          @ [CHR 0x0A]))"
proof -
  from appsWithPkgJson_eq[OF assms(3)] obtain exa exe where
    exa: "examples dirname fs = Inr exa" and exe: "exerciseApps dirname fs = Inr exe"
    and apps: "apps = filter (has_pkgjson fs) (exa @ exa @ exe)" by blast
  have dp: "dir_prefix (workshopRoot dirname) = workshopRoot dirname @ ''/''"
    using assms(2) by (simp add: dir_prefix_def)
  from assms(4) apps consider "file \<in> set exa" | "file \<in> set exe" by auto
  then obtain rel where f: "file = workshopRoot dirname @ ''/'' @ rel"
    and r: "prefix ''examples/'' rel \<or> prefix ''exercises/'' rel"
  proof cases
    case 1
    from examples_form[OF assms(1) exa 1] show ?thesis using that dp by auto
  next
    case 2
    from exerciseApps_form[OF assms(1) exe 2] show ?thesis using that dp by auto
  qed
  have n: "pkg_name dirname file = replace_seps rel"
    using js_replace_prefix[of "workshopRoot dirname @ ''/''" "[]" rel]
    by (simp add: pkg_name_def relativeToWorkshopRoot_def path_sep_def f)
  then have "\<forall>text kvs. JSON_parse text = Inr (JObj kvs) \<longrightarrow>
      new_content dirname file text
        = Inr (JSON_stringify (JObj (AList.update ''name'' (JStr (replace_seps rel)) kvs))
               @ [CHR 0x0A])"
    by (simp add: new_content_def)
  with f r n show ?thesis by blast
qed

lemma pkg_name_of_project_example:
  "is_absolute ''/repo/epicshop'' \<and> workshopRoot ''/repo/epicshop'' = ''/repo''
   \<and> appsWithPkgJson ''/repo/epicshop''
        [(''/repo'', Dir), (''/repo/exercises'', Dir), (''/repo/exercises/01-goo'', Dir),
         (''/repo/exercises/01-goo/problem.01-great'', Dir),
         (''/repo/exercises/01-goo/problem.01-great/package.json'', File ''{}'')]
       = Inr [''/repo/exercises/01-goo/problem.01-great'']
   \<and> (\<exists>rel. ''/repo/exercises/01-goo/problem.01-great'' = workshopRoot ''/repo/epicshop'' @ ''/'' @ rel
          \<and> pkg_name ''/repo/epicshop'' ''/repo/exercises/01-goo/problem.01-great'' = replace_seps rel)
   \<and> pkg_name ''/repo/epicshop'' ''/repo/exercises/01-goo/problem.01-great''
       = ''exercises__sep__01-goo__sep__problem.01-great''"
proof -
  have a: "is_absolute ''/repo/epicshop''" by (simp add: is_absolute_def)
  have r: "workshopRoot ''/repo/epicshop'' = ''/repo''" by code_simp
  then have r': "workshopRoot ''/repo/epicshop'' \<noteq> ''/''" by simp
  have l: "appsWithPkgJson ''/repo/epicshop''
        [(''/repo'', Dir), (''/repo/exercises'', Dir), (''/repo/exercises/01-goo'', Dir),
         (''/repo/exercises/01-goo/problem.01-great'', Dir),
         (''/repo/exercises/01-goo/problem.01-great/package.json'', File ''{}'')]
       = Inr [''/repo/exercises/01-goo/problem.01-great'']" by code_simp
  have n: "pkg_name ''/repo/epicshop'' ''/repo/exercises/01-goo/problem.01-great''
       = ''exercises__sep__01-goo__sep__problem.01-great''" by code_simp
  from pkg_name_of_project [OF a r' l, of "''/repo/exercises/01-goo/problem.01-great''"]
  have "\<exists>rel. ''/repo/exercises/01-goo/problem.01-great'' = workshopRoot ''/repo/epicshop'' @ ''/'' @ rel
          \<and> pkg_name ''/repo/epicshop'' ''/repo/exercises/01-goo/problem.01-great'' = replace_seps rel"
    by auto
  with a r l n show ?thesis by blast
qed

text \<open>
  When the workshop root is the root of the filesystem, \<open>workshopRoot\<close> followed by a
  separator is \<open>//\<close>, which no project path holds: nothing is stripped, and the name
  starts with \<open>__sep__\<close>.
\<close>

lemma pkg_name_at_filesystem_root:
  "workshopRoot ''/epicshop'' = ''/''
   \<and> pkg_name ''/epicshop'' ''/examples/foo'' = ''__sep__examples__sep__foo''"
  by code_simp


section \<open>The mirrored tests\<close>

text \<open>
  Claim C2. On a well-formed filesystem, for a problem variant that is a directory and
  whose derived solution path has a \<open>tests\<close> directory, one round of
  \<open>copyTestFiles\<close> ends without an error, and afterwards every relative path below
  the \<open>tests\<close> directory of the problem variant (and that directory itself) holds
  exactly what the same relative path held below the \<open>tests\<close> directory of the
  solution: the same files with the same contents, the same directories, and nothing
  where the solution has nothing, so a stale file of the problem variant is gone. The
  tests of the solution are as they were.
\<close>

theorem mirrorTests_copies_tests:
  assumes wf: "wf_fs (files s)"
    and inc: "js_includes app ''problem''"
    and appdir: "stat (files s) app = Some Dir"
    and srcdir: "stat (files s) (path_join [js_replace ''problem'' ''solution'' app, ''tests'']) = Some Dir"
    and run: "mirrorTests app s = (r, s')"
  shows "r = None
       \<and> (\<forall>rel. rel = [] \<or> hd rel = CHR ''/'' \<longrightarrow>
            stat (files s') (path_join [app, ''tests''] @ rel)
              = stat (files s) (path_join [js_replace ''problem'' ''solution'' app, ''tests''] @ rel)
          \<and> stat (files s') (path_join [js_replace ''problem'' ''solution'' app, ''tests''] @ rel)
              = stat (files s) (path_join [js_replace ''problem'' ''solution'' app, ''tests''] @ rel))"
proof -
  let ?fs = "files s"
  let ?sol = "js_replace ''problem'' ''solution'' app"
  let ?src = "?sol @ ''/tests''" and ?dest = "app @ ''/tests''"
  have "app \<noteq> ''/''" using inc by auto
  with appdir have "map_of ?fs app = Some Dir" by (simp add: stat_def)
  then have capp: "clean app" by (rule wf_fs_clean[OF wf])
  have csol: "clean ?sol" by (rule clean_replace[OF capp inc])
  have src: "path_join [?sol, ''tests''] = ?src" and dest: "path_join [app, ''tests''] = ?dest"
    using clean_join(1)[OF csol, of "''tests''"] clean_join(1)[OF capp, of "''tests''"] by simp_all
  have ne: "app \<noteq> []" "?src \<noteq> ''/''" "?dest \<noteq> ''/''" "?dest \<noteq> []"
    using clean_not_root[OF capp] by (auto simp: append_eq_Cons_conv)
  have div: "?src @ a \<noteq> ?dest @ b" for a b
    using replace_diverges[OF inc, of "''/tests'' @ a" "''/tests'' @ b"] by simp
  have nsd: "\<not> under ?dest (?src @ rel)" for rel
    using under_append[of ?dest "?src @ rel"] div by blast
  have nds: "\<not> under ?src (?dest @ rel)" for rel
    using under_append[of ?src "?dest @ rel"] div by metis
  have nda: "\<not> under ?dest app"
    using under_append[of ?dest app] by auto
  define fs1 where "fs1 = (if exists ?fs ?dest then rm ?fs ?dest else ?fs)"
  have nokey: "\<not> under ?dest k" if "k \<in> fst ` set fs1" for k
  proof (cases "exists ?fs ?dest")
    case True
    with that show ?thesis by (auto simp: fs1_def rm_def)
  next
    case False
    then have "stat ?fs ?dest = None" by (simp add: exists_def)
    from wf_fs_no_orphans[OF wf this _ ne(4)] that False show ?thesis by (simp add: fs1_def)
  qed
  have keep: "map_of fs1 k = map_of ?fs k" if "\<not> under ?dest k" for k
    using that map_of_filter_keys[of "\<lambda>k. \<not> under ?dest k" k ?fs]
    by (simp add: fs1_def rm_def)
  have d1: "distinct (map fst fs1)"
    using wf by (simp add: fs1_def rm_def wf_fs_def distinct_map_filter)
  let ?sel = "filter (\<lambda>(k, e). under ?src k) fs1"
  let ?es = "map (\<lambda>(k, e). (?dest @ drop (length ?src) k, e)) ?sel"
  have selpre: "\<forall>k \<in> fst ` set ?sel. prefix ?src k"
    by (auto simp: under_def dir_prefix_def prefix_def split: if_splits)
  have des: "distinct (map fst ?es)"
    by (rule translate_keys_distinct[OF selpre]) (simp add: d1 distinct_map_filter)
  have keys_es: "\<exists>rel. k = ?dest @ rel \<and> (rel = [] \<or> hd rel = CHR ''/'')" if "k \<in> fst ` set ?es" for k
  proof -
    from that obtain k0 where "under ?src k0" "k = ?dest @ drop (length ?src) k0" by force
    with under_clean_rel[OF ne(2), of k0] show ?thesis by auto
  qed
  have fresh: "\<forall>k \<in> fst ` set ?es. k \<noteq> ''/'' \<and> k \<notin> fst ` set fs1"
  proof
    fix k assume k: "k \<in> fst ` set ?es"
    from keys_es[OF k] obtain rel where rel: "k = ?dest @ rel" "rel = [] \<or> hd rel = CHR ''/''" by blast
    then have "under ?dest k" using under_rel[OF ne(3)] by blast
    with nokey have "k \<notin> fst ` set fs1" by blast
    moreover have "k \<noteq> ''/''" using rel ne(1) by (auto simp: append_eq_Cons_conv)
    ultimately show "k \<noteq> ''/'' \<and> k \<notin> fst ` set fs1" by simp
  qed
  have put: "fold put_entry ?es (Inr fs1) = Inr (fs1 @ ?es)"
    by (rule fold_put_entry_fresh[OF des fresh])
  have st_src: "stat fs1 ?src = Some Dir"
    using srcdir keep[OF nsd[of "[]"]] ne(2) by (simp add: src stat_def)
  have st_app: "stat fs1 app = Some Dir"
    using appdir keep[OF nda] \<open>app \<noteq> ''/''\<close> by (simp add: stat_def)
  have par: "parent ?dest = app"
    using parent_child[OF ne(1), of "''tests''"] by simp
  have cp: "cp fs1 ?src ?dest = Inr (fs1 @ ?es)"
    using st_src st_app par nds[of "[]"] put by (simp add: cp_def)
  have ex: "exists ?fs ?src" using srcdir by (simp add: exists_def src)
  from run have res: "r = None" and fin: "files s' = fs1 @ ?es"
    using ex cp by (auto simp: mirrorTests_def inc src dest Let_def fs1_def split: if_splits)
  have copy: "stat (files s') (?dest @ rel) = stat ?fs (?src @ rel)"
    and same: "stat (files s') (?src @ rel) = stat ?fs (?src @ rel)"
    if rel: "rel = [] \<or> hd rel = CHR ''/''" for rel
  proof -
    have u: "under ?dest (?dest @ rel)" "under ?src (?src @ rel)"
      using under_rel[OF ne(3) rel] under_rel[OF ne(2) rel] by simp_all
    have n1: "map_of fs1 (?dest @ rel) = None"
      using nokey u(1) by (metis map_of_eq_None_iff)
    have "map_of ?es (?dest @ drop (length ?src) (?src @ rel)) = map_of ?sel (?src @ rel)"
      by (rule map_of_translate[OF selpre]) simp
    also have "\<dots> = map_of fs1 (?src @ rel)"
      using map_of_filter_keys[of "under ?src" "?src @ rel" fs1] u(2) by simp
    also have "\<dots> = map_of ?fs (?src @ rel)" by (rule keep[OF nsd])
    finally have "map_of ?es (?dest @ rel) = map_of ?fs (?src @ rel)" by simp
    moreover have "?dest @ rel \<noteq> ''/''" "?src @ rel \<noteq> ''/''"
      using ne(1) clean_not_root[OF csol] by (auto simp: append_eq_Cons_conv)
    ultimately show "stat (files s') (?dest @ rel) = stat ?fs (?src @ rel)"
      using n1 by (simp add: fin stat_def map_add_def)
    have "?src @ rel \<notin> fst ` set ?es"
      using keys_es div by metis
    then have "map_of ?es (?src @ rel) = None" by (simp add: map_of_eq_None_iff)
    then show "stat (files s') (?src @ rel) = stat ?fs (?src @ rel)"
      using keep[OF nsd[of rel]] \<open>?src @ rel \<noteq> ''/''\<close>
      by (simp add: fin stat_def map_add_def split: option.splits)
  qed
  show ?thesis using res copy same by (simp add: src dest)
qed

theorem mirrorTests_copies_tests_witness:
  "wf_fs [(''/r'', Dir), (''/r/problem'', Dir), (''/r/problem/tests'', Dir),
          (''/r/problem/tests/old.test.js'', File ''stale''),
          (''/r/solution'', Dir), (''/r/solution/tests'', Dir),
          (''/r/solution/tests/unit.test.js'', File ''unit''),
          (''/r/solution/tests/sub'', Dir),
          (''/r/solution/tests/sub/fixture.json'', File ''fixture'')]
   \<and> fst (mirrorTests ''/r/problem''
        \<lparr>files = [(''/r'', Dir), (''/r/problem'', Dir), (''/r/problem/tests'', Dir),
                  (''/r/problem/tests/old.test.js'', File ''stale''),
                  (''/r/solution'', Dir), (''/r/solution/tests'', Dir),
                  (''/r/solution/tests/unit.test.js'', File ''unit''),
                  (''/r/solution/tests/sub'', Dir),
                  (''/r/solution/tests/sub/fixture.json'', File ''fixture'')],
         trace = []\<rparr>) = None
   \<and> stat (files (snd (mirrorTests ''/r/problem''
        \<lparr>files = [(''/r'', Dir), (''/r/problem'', Dir), (''/r/problem/tests'', Dir),
                  (''/r/problem/tests/old.test.js'', File ''stale''),
                  (''/r/solution'', Dir), (''/r/solution/tests'', Dir),
                  (''/r/solution/tests/unit.test.js'', File ''unit''),
                  (''/r/solution/tests/sub'', Dir),
                  (''/r/solution/tests/sub/fixture.json'', File ''fixture'')],
         trace = []\<rparr>))) (''/r/problem/tests'' @ ''/unit.test.js'') = Some (File ''unit'')
   \<and> stat (files (snd (mirrorTests ''/r/problem''
        \<lparr>files = [(''/r'', Dir), (''/r/problem'', Dir), (''/r/problem/tests'', Dir),
                  (''/r/problem/tests/old.test.js'', File ''stale''),
                  (''/r/solution'', Dir), (''/r/solution/tests'', Dir),
                  (''/r/solution/tests/unit.test.js'', File ''unit''),
                  (''/r/solution/tests/sub'', Dir),
                  (''/r/solution/tests/sub/fixture.json'', File ''fixture'')],
         trace = []\<rparr>))) (''/r/problem/tests'' @ ''/sub/fixture.json'') = Some (File ''fixture'')
   \<and> stat (files (snd (mirrorTests ''/r/problem''
        \<lparr>files = [(''/r'', Dir), (''/r/problem'', Dir), (''/r/problem/tests'', Dir),
                  (''/r/problem/tests/old.test.js'', File ''stale''),
                  (''/r/solution'', Dir), (''/r/solution/tests'', Dir),
                  (''/r/solution/tests/unit.test.js'', File ''unit''),
                  (''/r/solution/tests/sub'', Dir),
                  (''/r/solution/tests/sub/fixture.json'', File ''fixture'')],
         trace = []\<rparr>))) (''/r/problem/tests'' @ ''/old.test.js'') = None"
proof -
  let ?fs = "[(''/r'', Dir), (''/r/problem'', Dir), (''/r/problem/tests'', Dir),
          (''/r/problem/tests/old.test.js'', File ''stale''),
          (''/r/solution'', Dir), (''/r/solution/tests'', Dir),
          (''/r/solution/tests/unit.test.js'', File ''unit''),
          (''/r/solution/tests/sub'', Dir),
          (''/r/solution/tests/sub/fixture.json'', File ''fixture'')]"
  let ?s = "\<lparr>files = ?fs, trace = []\<rparr>"
  let ?s' = "snd (mirrorTests ''/r/problem'' ?s)"
  have w: "wf_fs (files ?s)" by code_simp
  have i: "js_includes ''/r/problem'' ''problem''" by code_simp
  have a: "stat (files ?s) ''/r/problem'' = Some Dir" by code_simp
  have sol: "path_join [js_replace ''problem'' ''solution'' ''/r/problem'', ''tests''] = ''/r/solution/tests''"
    and prob: "path_join [''/r/problem'', ''tests''] = ''/r/problem/tests''"
    by code_simp+
  have sd: "stat (files ?s) (path_join [js_replace ''problem'' ''solution'' ''/r/problem'', ''tests'']) = Some Dir"
    by code_simp
  have run: "mirrorTests ''/r/problem'' ?s = (fst (mirrorTests ''/r/problem'' ?s), ?s')" by simp
  note m = mirrorTests_copies_tests [OF w i a sd run, unfolded sol prob]
  have s1: "stat ?fs (''/r/solution/tests'' @ ''/unit.test.js'') = Some (File ''unit'')"
    and s2: "stat ?fs (''/r/solution/tests'' @ ''/sub/fixture.json'') = Some (File ''fixture'')"
    and s3: "stat ?fs (''/r/solution/tests'' @ ''/old.test.js'') = None"
    by code_simp+
  from m have "fst (mirrorTests ''/r/problem'' ?s) = None" by blast
  moreover from m s1 have "stat (files ?s') (''/r/problem/tests'' @ ''/unit.test.js'') = Some (File ''unit'')"
    by simp
  moreover from m s2 have "stat (files ?s') (''/r/problem/tests'' @ ''/sub/fixture.json'') = Some (File ''fixture'')"
    by simp
  moreover from m s3 have "stat (files ?s') (''/r/problem/tests'' @ ''/old.test.js'') = None"
    by simp
  ultimately show ?thesis using w by simp
qed

section \<open>Naming twice\<close>

text \<open>
  Claim C3. When one round of \<open>updatePkgNames\<close> on a project ends without an error,
  whether it changed the manifest or not, a second round on the state it left reports no
  change and leaves that state exactly as it is: no write, no notification, the same
  bytes in the manifest. So of two rounds in succession at most the first reports a change.
\<close>

theorem nameProject_twice:
  assumes "nameProject dirname file s = (Inr changed, s1)"
  shows "nameProject dirname file s1 = (Inr False, s1)"
  using nameProject_leaves_stable[OF assms] nameProject_stable by blast

theorem nameProject_twice_witness:
  "nameProject ''/r/epicshop'' ''/r/examples/a''
      \<lparr>files = [(''/r'', Dir), (''/r/examples'', Dir), (''/r/examples/a'', Dir),
                (''/r/examples/a/package.json'', File ''{}'')],
       trace = []\<rparr>
     = (Inr True,
        \<lparr>files = [(''/r'', Dir), (''/r/examples'', Dir), (''/r/examples/a'', Dir),
                  (''/r/examples/a/package.json'',
                   File (''{'' @ [CHR 0x0A] @ ''  '' @ [CHR 0x22] @ ''name'' @ [CHR 0x22] @ '': ''
                     @ [CHR 0x22] @ ''examples__sep__a'' @ [CHR 0x22] @ [CHR 0x0A] @ ''}''
                     @ [CHR 0x0A]))],
         trace = [Written ''/r/examples/a/package.json''
                    (''{'' @ [CHR 0x0A] @ ''  '' @ [CHR 0x22] @ ''name'' @ [CHR 0x22] @ '': ''
                      @ [CHR 0x22] @ ''examples__sep__a'' @ [CHR 0x22] @ [CHR 0x0A] @ ''}''
                      @ [CHR 0x0A]),
                  Logged ''/r/examples/a/package.json'']\<rparr>)
   \<and> nameProject ''/r/epicshop'' ''/r/examples/a''
        \<lparr>files = [(''/r'', Dir), (''/r/examples'', Dir), (''/r/examples/a'', Dir),
                  (''/r/examples/a/package.json'',
                   File (''{'' @ [CHR 0x0A] @ ''  '' @ [CHR 0x22] @ ''name'' @ [CHR 0x22] @ '': ''
                     @ [CHR 0x22] @ ''examples__sep__a'' @ [CHR 0x22] @ [CHR 0x0A] @ ''}''
                     @ [CHR 0x0A]))],
         trace = [Written ''/r/examples/a/package.json''
                    (''{'' @ [CHR 0x0A] @ ''  '' @ [CHR 0x22] @ ''name'' @ [CHR 0x22] @ '': ''
                      @ [CHR 0x22] @ ''examples__sep__a'' @ [CHR 0x22] @ [CHR 0x0A] @ ''}''
                      @ [CHR 0x0A]),
                  Logged ''/r/examples/a/package.json'']\<rparr>
     = (Inr False,
        \<lparr>files = [(''/r'', Dir), (''/r/examples'', Dir), (''/r/examples/a'', Dir),
                  (''/r/examples/a/package.json'',
                   File (''{'' @ [CHR 0x0A] @ ''  '' @ [CHR 0x22] @ ''name'' @ [CHR 0x22] @ '': ''
                     @ [CHR 0x22] @ ''examples__sep__a'' @ [CHR 0x22] @ [CHR 0x0A] @ ''}''
                     @ [CHR 0x0A]))],
         trace = [Written ''/r/examples/a/package.json''
                    (''{'' @ [CHR 0x0A] @ ''  '' @ [CHR 0x22] @ ''name'' @ [CHR 0x22] @ '': ''
                      @ [CHR 0x22] @ ''examples__sep__a'' @ [CHR 0x22] @ [CHR 0x0A] @ ''}''
                      @ [CHR 0x0A]),
                  Logged ''/r/examples/a/package.json'']\<rparr>)"
proof -
  have first: "nameProject ''/r/epicshop'' ''/r/examples/a''
      \<lparr>files = [(''/r'', Dir), (''/r/examples'', Dir), (''/r/examples/a'', Dir),
                (''/r/examples/a/package.json'', File ''{}'')],
       trace = []\<rparr>
     = (Inr True,
        \<lparr>files = [(''/r'', Dir), (''/r/examples'', Dir), (''/r/examples/a'', Dir),
                  (''/r/examples/a/package.json'',
                   File (''{'' @ [CHR 0x0A] @ ''  '' @ [CHR 0x22] @ ''name'' @ [CHR 0x22] @ '': ''
                     @ [CHR 0x22] @ ''examples__sep__a'' @ [CHR 0x22] @ [CHR 0x0A] @ ''}''
                     @ [CHR 0x0A]))],
         trace = [Written ''/r/examples/a/package.json''
                    (''{'' @ [CHR 0x0A] @ ''  '' @ [CHR 0x22] @ ''name'' @ [CHR 0x22] @ '': ''
                      @ [CHR 0x22] @ ''examples__sep__a'' @ [CHR 0x22] @ [CHR 0x0A] @ ''}''
                      @ [CHR 0x0A]),
                  Logged ''/r/examples/a/package.json'']\<rparr>)"
    by code_simp
  from nameProject_twice [OF first] first show ?thesis by simp
qed

section \<open>A manifest that already has its name\<close>

text \<open>
  Claim C4, as amended. When the manifest of a project is an object whose \<open>name\<close> is
  already the computed name, and the file is the text the script would write (the object
  serialised with two spaces of indentation, then one newline), one round of
  \<open>updatePkgNames\<close> reports no change and writes nothing: the state, with the
  filesystem and the trace, is as it was.
\<close>

theorem nameProject_unchanged:
  assumes "readFile (files s) (path_join [file, ''package.json'']) = Inr text"
    and "JSON_parse text = Inr (JObj kvs)"
    and "map_of kvs ''name'' = Some (JStr (pkg_name dirname file))"
    and "text = JSON_stringify (JObj kvs) @ [CHR 0x0A]"
  shows "nameProject dirname file s = (Inr False, s)"
proof -
  have "new_content dirname file text = Inr text"
    using assms(2,4) update_same[OF assms(3)] by (simp add: new_content_def)
  then show ?thesis
    using assms(1) by (simp add: nameProject_def writeIfNeeded_def)
qed

theorem nameProject_unchanged_witness:
  "readFile [(''/r'', Dir), (''/r/examples'', Dir), (''/r/examples/a'', Dir),
             (''/r/examples/a/package.json'',
              File (''{'' @ [CHR 0x0A] @ ''  '' @ [CHR 0x22] @ ''name'' @ [CHR 0x22] @ '': ''
                @ [CHR 0x22] @ ''examples__sep__a'' @ [CHR 0x22] @ [CHR 0x0A] @ ''}'' @ [CHR 0x0A]))]
        (path_join [''/r/examples/a'', ''package.json''])
     = Inr (JSON_stringify (JObj [(''name'', JStr ''examples__sep__a'')]) @ [CHR 0x0A])
   \<and> JSON_parse (JSON_stringify (JObj [(''name'', JStr ''examples__sep__a'')]) @ [CHR 0x0A])
       = Inr (JObj [(''name'', JStr ''examples__sep__a'')])
   \<and> pkg_name ''/r/epicshop'' ''/r/examples/a'' = ''examples__sep__a''
   \<and> nameProject ''/r/epicshop'' ''/r/examples/a''
        \<lparr>files = [(''/r'', Dir), (''/r/examples'', Dir), (''/r/examples/a'', Dir),
             (''/r/examples/a/package.json'',
              File (''{'' @ [CHR 0x0A] @ ''  '' @ [CHR 0x22] @ ''name'' @ [CHR 0x22] @ '': ''
                @ [CHR 0x22] @ ''examples__sep__a'' @ [CHR 0x22] @ [CHR 0x0A] @ ''}'' @ [CHR 0x0A]))],
         trace = []\<rparr>
     = (Inr False,
        \<lparr>files = [(''/r'', Dir), (''/r/examples'', Dir), (''/r/examples/a'', Dir),
             (''/r/examples/a/package.json'',
              File (''{'' @ [CHR 0x0A] @ ''  '' @ [CHR 0x22] @ ''name'' @ [CHR 0x22] @ '': ''
                @ [CHR 0x22] @ ''examples__sep__a'' @ [CHR 0x22] @ [CHR 0x0A] @ ''}'' @ [CHR 0x0A]))],
         trace = []\<rparr>)"
proof -
  let ?s = "\<lparr>files = [(''/r'', Dir), (''/r/examples'', Dir), (''/r/examples/a'', Dir),
             (''/r/examples/a/package.json'',
              File (''{'' @ [CHR 0x0A] @ ''  '' @ [CHR 0x22] @ ''name'' @ [CHR 0x22] @ '': ''
                @ [CHR 0x22] @ ''examples__sep__a'' @ [CHR 0x22] @ [CHR 0x0A] @ ''}'' @ [CHR 0x0A]))],
         trace = []\<rparr>"
  let ?kvs = "[(''name'', JStr ''examples__sep__a'')]"
  let ?text = "JSON_stringify (JObj ?kvs) @ [CHR 0x0A]"
  have r: "readFile (files ?s) (path_join [''/r/examples/a'', ''package.json'']) = Inr ?text"
    by code_simp
  have p: "JSON_parse ?text = Inr (JObj ?kvs)" by code_simp
  have n: "pkg_name ''/r/epicshop'' ''/r/examples/a'' = ''examples__sep__a''" by code_simp
  then have m: "map_of ?kvs ''name'' = Some (JStr (pkg_name ''/r/epicshop'' ''/r/examples/a''))"
    by simp
  from nameProject_unchanged [OF r p m refl] r p n show ?thesis by simp
qed


text \<open>
  Claim C4 as the specification states it fails: the script does not compare names, it
  serialises the manifest and compares the text with the file. A manifest that holds
  the right name in another layout (here on one line, without the final newline) is
  written again, and reported as updated.
\<close>

theorem nameProject_same_name_counterexample:
  "JSON_parse (''{'' @ [CHR 0x22] @ ''name'' @ [CHR 0x22] @ '':''
                @ [CHR 0x22] @ ''examples__sep__a'' @ [CHR 0x22] @ ''}'')
     = Inr (JObj [(''name'', JStr ''examples__sep__a'')])
   \<and> pkg_name ''/r/epicshop'' ''/r/examples/a'' = ''examples__sep__a''
   \<and> nameProject ''/r/epicshop'' ''/r/examples/a''
        \<lparr>files = [(''/r'', Dir), (''/r/examples'', Dir), (''/r/examples/a'', Dir),
             (''/r/examples/a/package.json'',
              File (''{'' @ [CHR 0x22] @ ''name'' @ [CHR 0x22] @ '':''
                @ [CHR 0x22] @ ''examples__sep__a'' @ [CHR 0x22] @ ''}''))],
         trace = []\<rparr>
     = (Inr True,
        \<lparr>files = [(''/r'', Dir), (''/r/examples'', Dir), (''/r/examples/a'', Dir),
             (''/r/examples/a/package.json'',
              File (''{'' @ [CHR 0x0A] @ ''  '' @ [CHR 0x22] @ ''name'' @ [CHR 0x22] @ '': ''
                @ [CHR 0x22] @ ''examples__sep__a'' @ [CHR 0x22] @ [CHR 0x0A] @ ''}'' @ [CHR 0x0A]))],
         trace = [Written ''/r/examples/a/package.json''
                    (''{'' @ [CHR 0x0A] @ ''  '' @ [CHR 0x22] @ ''name'' @ [CHR 0x22] @ '': ''
                      @ [CHR 0x22] @ ''examples__sep__a'' @ [CHR 0x22] @ [CHR 0x0A] @ ''}''
                      @ [CHR 0x0A]),
                  Logged ''/r/examples/a/package.json'']\<rparr>)"
  by code_simp

section \<open>Directories without a manifest\<close>

text \<open>
  Claim C5, as amended. In every run of the script, a directory without a manifest is
  skipped by the manifest namer: it is not in \<open>appsWithPkgJson\<close>, no manifest is
  written for it and no notification is printed about it. The variant test mirror does not
  look at manifests: in a run that ends without an error, every problem variant the
  classifier found whose derived solution path has a \<open>tests\<close> entry gets that entry
  copied (the copy is in the trace, and the variant has a \<open>tests\<close> entry when the
  run ends), whether the variant holds a manifest or not.
\<close>

theorem manifest_gates_naming_only:
  assumes abs: "is_absolute dirname"
    and apps: "appsWithPkgJson dirname (files s) = Inr apps"
    and exe: "exerciseApps dirname (files s) = Inr exe"
    and run: "main dirname s = (r, s')"
  shows "\<exists>t. trace s' = trace s @ t
           \<and> (\<forall>d. \<not> has_pkgjson (files s) d \<longrightarrow>
                 d \<notin> set apps
                 \<and> Logged (path_join [d, ''package.json'']) \<notin> set t
                 \<and> (\<forall>c. Written (path_join [d, ''package.json'']) c \<notin> set t))
           \<and> (r = None \<longrightarrow>
                (\<forall>app \<in> set exe.
                   js_includes app ''problem''
                   \<and> exists (files s) (path_join [js_replace ''problem'' ''solution'' app, ''tests''])
                   \<longrightarrow> Copied (path_join [js_replace ''problem'' ''solution'' app, ''tests''])
                              (path_join [app, ''tests'']) \<in> set t
                       \<and> exists (files s') (path_join [app, ''tests''])))"
proof -
  obtain r1 s1 where u: "updatePkgNames dirname apps s = (r1, s1)" by force
  from updatePkgNames_trace[OF u] obtain t1 where t1: "trace s1 = trace s @ t1"
    and n1: "list_all is_naming_event t1"
    and ev: "\<forall>e\<in>set t1. \<exists>f\<in>set apps. e = Logged (path_join [f, ''package.json''])
                 \<or> (\<exists>c. e = Written (path_join [f, ''package.json'']) c)" by blast
  have skip: "d \<notin> set apps \<and> Logged (path_join [d, ''package.json'']) \<notin> set t1
              \<and> (\<forall>c. Written (path_join [d, ''package.json'']) c \<notin> set t1)"
    if d: "\<not> has_pkgjson (files s) d" for d
  proof -
    have other: "path_join [f, ''package.json''] \<noteq> path_join [d, ''package.json'']"
      if "f \<in> set apps" for f
      using appsWithPkgJson_has_pkgjson[OF apps that] d by (auto simp: has_pkgjson_def)
    have "d \<notin> set apps" using appsWithPkgJson_has_pkgjson[OF apps] d by blast
    moreover have "Logged (path_join [d, ''package.json'']) \<notin> set t1" using ev other by fastforce
    moreover have "\<forall>c. Written (path_join [d, ''package.json'']) c \<notin> set t1"
      using ev other by fastforce
    ultimately show ?thesis by blast
  qed
  show ?thesis
  proof (cases r1)
    case (Some e)
    with run apps exe u have "s' = s1" "r \<noteq> None" by (auto simp: main_def)
    with t1 skip show ?thesis by (intro exI[of _ t1]) auto
  next
    case None
    with run apps exe u have c: "copyTestFiles exe s1 = (r, s')" by (simp add: main_def)
    from copyTestFiles_trace[OF c] obtain t2 where t2: "trace s' = trace s1 @ t2"
      and m2: "list_all is_mirror_event t2" by blast
    have nol: "Logged p \<notin> set t2" "Written p c \<notin> set t2" for p c
      using m2 by (auto simp: list_all_iff is_mirror_event_def)
    have all: "\<forall>a \<in> set exe. clean a
        \<and> count_list a CHR ''/'' = count_list (dir_prefix (workshopRoot dirname)) CHR ''/'' + 2"
      using variant_clean[OF abs exe] slashes_variant[OF abs exe] by blast
    have copies: "Copied (path_join [js_replace ''problem'' ''solution'' app, ''tests''])
                         (path_join [app, ''tests'']) \<in> set t2
                  \<and> exists (files s') (path_join [app, ''tests''])"
      if rn: "r = None" and app: "app \<in> set exe" and inc: "js_includes app ''problem''"
        and ex: "exists (files s) (path_join [js_replace ''problem'' ''solution'' app, ''tests''])"
      for app
    proof -
      let ?P = "path_join [js_replace ''problem'' ''solution'' app, ''tests'']"
      from ex have "?P \<noteq> []" "stat (files s) ?P \<noteq> None" by (auto simp: exists_def split: if_splits)
      with updatePkgNames_keeps[OF u] have "exists (files s1) ?P" by (simp add: exists_def)
      from copyTestFiles_mirrors[OF all app inc this c[unfolded rn]] t2 show ?thesis by auto
    qed
    have "trace s' = trace s @ (t1 @ t2)" using t1 t2 by simp
    with skip nol copies show ?thesis by (intro exI[of _ "t1 @ t2"]) auto
  qed
qed

theorem manifest_gates_naming_only_witness:
  "is_absolute ''/r/epicshop''
   \<and> appsWithPkgJson ''/r/epicshop''
        [(''/r'', Dir), (''/r/exercises'', Dir), (''/r/exercises/e1'', Dir),
         (''/r/exercises/e1/01.problem.a'', Dir),
         (''/r/exercises/e1/01.problem.a/package.json'', File ''{}''),
         (''/r/exercises/e1/01.solution.a'', Dir), (''/r/exercises/e1/01.solution.a/tests'', Dir),
         (''/r/exercises/e2'', Dir), (''/r/exercises/e2/01.problem.b'', Dir),
         (''/r/exercises/e2/01.solution.b'', Dir), (''/r/exercises/e2/01.solution.b/tests'', Dir)]
       = Inr [''/r/exercises/e1/01.problem.a'']
   \<and> exerciseApps ''/r/epicshop''
        [(''/r'', Dir), (''/r/exercises'', Dir), (''/r/exercises/e1'', Dir),
         (''/r/exercises/e1/01.problem.a'', Dir),
         (''/r/exercises/e1/01.problem.a/package.json'', File ''{}''),
         (''/r/exercises/e1/01.solution.a'', Dir), (''/r/exercises/e1/01.solution.a/tests'', Dir),
         (''/r/exercises/e2'', Dir), (''/r/exercises/e2/01.problem.b'', Dir),
         (''/r/exercises/e2/01.solution.b'', Dir), (''/r/exercises/e2/01.solution.b/tests'', Dir)]
       = Inr [''/r/exercises/e1/01.problem.a'', ''/r/exercises/e1/01.solution.a'',
              ''/r/exercises/e2/01.problem.b'', ''/r/exercises/e2/01.solution.b'']
   \<and> fst (main ''/r/epicshop''
        \<lparr>files = [(''/r'', Dir), (''/r/exercises'', Dir), (''/r/exercises/e1'', Dir),
           (''/r/exercises/e1/01.problem.a'', Dir),
           (''/r/exercises/e1/01.problem.a/package.json'', File ''{}''),
           (''/r/exercises/e1/01.solution.a'', Dir), (''/r/exercises/e1/01.solution.a/tests'', Dir),
           (''/r/exercises/e2'', Dir), (''/r/exercises/e2/01.problem.b'', Dir),
           (''/r/exercises/e2/01.solution.b'', Dir), (''/r/exercises/e2/01.solution.b/tests'', Dir)],
         trace = []\<rparr>) = None
   \<and> Logged ''/r/exercises/e2/01.problem.b/package.json''
       \<notin> set (trace (snd (main ''/r/epicshop''
        \<lparr>files = [(''/r'', Dir), (''/r/exercises'', Dir), (''/r/exercises/e1'', Dir),
           (''/r/exercises/e1/01.problem.a'', Dir),
           (''/r/exercises/e1/01.problem.a/package.json'', File ''{}''),
           (''/r/exercises/e1/01.solution.a'', Dir), (''/r/exercises/e1/01.solution.a/tests'', Dir),
           (''/r/exercises/e2'', Dir), (''/r/exercises/e2/01.problem.b'', Dir),
           (''/r/exercises/e2/01.solution.b'', Dir), (''/r/exercises/e2/01.solution.b/tests'', Dir)],
         trace = []\<rparr>)))
   \<and> Copied ''/r/exercises/e1/01.solution.a/tests'' ''/r/exercises/e1/01.problem.a/tests''
       \<in> set (trace (snd (main ''/r/epicshop''
        \<lparr>files = [(''/r'', Dir), (''/r/exercises'', Dir), (''/r/exercises/e1'', Dir),
           (''/r/exercises/e1/01.problem.a'', Dir),
           (''/r/exercises/e1/01.problem.a/package.json'', File ''{}''),
           (''/r/exercises/e1/01.solution.a'', Dir), (''/r/exercises/e1/01.solution.a/tests'', Dir),
           (''/r/exercises/e2'', Dir), (''/r/exercises/e2/01.problem.b'', Dir),
           (''/r/exercises/e2/01.solution.b'', Dir), (''/r/exercises/e2/01.solution.b/tests'', Dir)],
         trace = []\<rparr>)))
   \<and> Copied ''/r/exercises/e2/01.solution.b/tests'' ''/r/exercises/e2/01.problem.b/tests''
       \<in> set (trace (snd (main ''/r/epicshop''
        \<lparr>files = [(''/r'', Dir), (''/r/exercises'', Dir), (''/r/exercises/e1'', Dir),
           (''/r/exercises/e1/01.problem.a'', Dir),
           (''/r/exercises/e1/01.problem.a/package.json'', File ''{}''),
           (''/r/exercises/e1/01.solution.a'', Dir), (''/r/exercises/e1/01.solution.a/tests'', Dir),
           (''/r/exercises/e2'', Dir), (''/r/exercises/e2/01.problem.b'', Dir),
           (''/r/exercises/e2/01.solution.b'', Dir), (''/r/exercises/e2/01.solution.b/tests'', Dir)],
         trace = []\<rparr>)))
   \<and> exists (files (snd (main ''/r/epicshop''
        \<lparr>files = [(''/r'', Dir), (''/r/exercises'', Dir), (''/r/exercises/e1'', Dir),
           (''/r/exercises/e1/01.problem.a'', Dir),
           (''/r/exercises/e1/01.problem.a/package.json'', File ''{}''),
           (''/r/exercises/e1/01.solution.a'', Dir), (''/r/exercises/e1/01.solution.a/tests'', Dir),
           (''/r/exercises/e2'', Dir), (''/r/exercises/e2/01.problem.b'', Dir),
           (''/r/exercises/e2/01.solution.b'', Dir), (''/r/exercises/e2/01.solution.b/tests'', Dir)],
         trace = []\<rparr>))) ''/r/exercises/e1/01.problem.a/tests''
   \<and> exists (files (snd (main ''/r/epicshop''
        \<lparr>files = [(''/r'', Dir), (''/r/exercises'', Dir), (''/r/exercises/e1'', Dir),
           (''/r/exercises/e1/01.problem.a'', Dir),
           (''/r/exercises/e1/01.problem.a/package.json'', File ''{}''),
           (''/r/exercises/e1/01.solution.a'', Dir), (''/r/exercises/e1/01.solution.a/tests'', Dir),
           (''/r/exercises/e2'', Dir), (''/r/exercises/e2/01.problem.b'', Dir),
           (''/r/exercises/e2/01.solution.b'', Dir), (''/r/exercises/e2/01.solution.b/tests'', Dir)],
         trace = []\<rparr>))) ''/r/exercises/e2/01.problem.b/tests''"
proof -
  let ?fs = "[(''/r'', Dir), (''/r/exercises'', Dir), (''/r/exercises/e1'', Dir),
           (''/r/exercises/e1/01.problem.a'', Dir),
           (''/r/exercises/e1/01.problem.a/package.json'', File ''{}''),
           (''/r/exercises/e1/01.solution.a'', Dir), (''/r/exercises/e1/01.solution.a/tests'', Dir),
           (''/r/exercises/e2'', Dir), (''/r/exercises/e2/01.problem.b'', Dir),
           (''/r/exercises/e2/01.solution.b'', Dir), (''/r/exercises/e2/01.solution.b/tests'', Dir)]"
  let ?s = "\<lparr>files = ?fs, trace = []\<rparr>"
  let ?p1 = "''/r/exercises/e1/01.problem.a''" and ?p2 = "''/r/exercises/e2/01.problem.b''"
  let ?exe = "[?p1, ''/r/exercises/e1/01.solution.a'', ?p2, ''/r/exercises/e2/01.solution.b'']"
  have a: "is_absolute ''/r/epicshop''" by (simp add: is_absolute_def)
  have apps: "appsWithPkgJson ''/r/epicshop'' (files ?s) = Inr [?p1]" by code_simp
  have exe: "exerciseApps ''/r/epicshop'' (files ?s) = Inr ?exe" by code_simp
  have f: "fst (main ''/r/epicshop'' ?s) = None" by code_simp
  then have run: "main ''/r/epicshop'' ?s = (None, snd (main ''/r/epicshop'' ?s))"
    by (metis prod.collapse)
  have nm: "\<not> has_pkgjson (files ?s) ?p2" by code_simp
  have j: "path_join [?p2, ''package.json''] = ''/r/exercises/e2/01.problem.b/package.json''"
    "path_join [js_replace ''problem'' ''solution'' ?p1, ''tests''] = ''/r/exercises/e1/01.solution.a/tests''"
    "path_join [js_replace ''problem'' ''solution'' ?p2, ''tests''] = ''/r/exercises/e2/01.solution.b/tests''"
    "path_join [?p1, ''tests''] = ''/r/exercises/e1/01.problem.a/tests''"
    "path_join [?p2, ''tests''] = ''/r/exercises/e2/01.problem.b/tests''"
    by code_simp+
  have i: "js_includes ?p1 ''problem''" "js_includes ?p2 ''problem''" by code_simp+
  have e: "exists (files ?s) ''/r/exercises/e1/01.solution.a/tests''"
    "exists (files ?s) ''/r/exercises/e2/01.solution.b/tests''" by code_simp+
  from manifest_gates_naming_only [OF a apps exe run] obtain t where
    t: "trace (snd (main ''/r/epicshop'' ?s)) = trace ?s @ t"
    and skip: "\<forall>d. \<not> has_pkgjson (files ?s) d \<longrightarrow>
                 Logged (path_join [d, ''package.json'']) \<notin> set t"
    and copy: "\<forall>app \<in> set ?exe.
                   js_includes app ''problem''
                   \<and> exists (files ?s) (path_join [js_replace ''problem'' ''solution'' app, ''tests''])
                   \<longrightarrow> Copied (path_join [js_replace ''problem'' ''solution'' app, ''tests''])
                              (path_join [app, ''tests'']) \<in> set t
                       \<and> exists (files (snd (main ''/r/epicshop'' ?s))) (path_join [app, ''tests''])"
    by blast
  from skip nm have 1: "Logged ''/r/exercises/e2/01.problem.b/package.json'' \<notin> set t"
    unfolding j[symmetric] by blast
  from copy i(1) e(1) have 2: "Copied ''/r/exercises/e1/01.solution.a/tests''
      ''/r/exercises/e1/01.problem.a/tests'' \<in> set t
      \<and> exists (files (snd (main ''/r/epicshop'' ?s))) ''/r/exercises/e1/01.problem.a/tests''"
    using j(2,4) by (metis list.set_intros(1))
  have "?p2 \<in> set ?exe" by simp
  with copy i(2) e(2) have 3: "Copied ''/r/exercises/e2/01.solution.b/tests''
      ''/r/exercises/e2/01.problem.b/tests'' \<in> set t
      \<and> exists (files (snd (main ''/r/epicshop'' ?s))) ''/r/exercises/e2/01.problem.b/tests''"
    using j(3,5) by metis
  from t have "trace (snd (main ''/r/epicshop'' ?s)) = t" by simp
  with 1 2 3 a apps exe f show ?thesis by simp
qed


text \<open>
  Claim C5 as the specification states it fails for the variant test mirror:
  \<open>copyTestFiles\<close> goes through \<open>exerciseApps\<close>, not through \<open>appsWithPkgJson\<close>,
  so a problem variant without a manifest still gets the tests of its solution.
\<close>

theorem mirror_without_manifest_counterexample:
  "exerciseApps ''/r/epicshop''
      [(''/r'', Dir), (''/r/exercises'', Dir), (''/r/exercises/e'', Dir),
       (''/r/exercises/e/problem'', Dir), (''/r/exercises/e/solution'', Dir),
       (''/r/exercises/e/solution/tests'', Dir),
       (''/r/exercises/e/solution/tests/t.js'', File ''test'')]
     = Inr [''/r/exercises/e/problem'', ''/r/exercises/e/solution'']
   \<and> \<not> has_pkgjson
      [(''/r'', Dir), (''/r/exercises'', Dir), (''/r/exercises/e'', Dir),
       (''/r/exercises/e/problem'', Dir), (''/r/exercises/e/solution'', Dir),
       (''/r/exercises/e/solution/tests'', Dir),
       (''/r/exercises/e/solution/tests/t.js'', File ''test'')] ''/r/exercises/e/problem''
   \<and> main ''/r/epicshop''
      \<lparr>files = [(''/r'', Dir), (''/r/exercises'', Dir), (''/r/exercises/e'', Dir),
                (''/r/exercises/e/problem'', Dir), (''/r/exercises/e/solution'', Dir),
                (''/r/exercises/e/solution/tests'', Dir),
                (''/r/exercises/e/solution/tests/t.js'', File ''test'')],
       trace = []\<rparr>
     = (None,
        \<lparr>files = [(''/r'', Dir), (''/r/exercises'', Dir), (''/r/exercises/e'', Dir),
                  (''/r/exercises/e/problem'', Dir), (''/r/exercises/e/solution'', Dir),
                  (''/r/exercises/e/solution/tests'', Dir),
                  (''/r/exercises/e/solution/tests/t.js'', File ''test''),
                  (''/r/exercises/e/problem/tests'', Dir),
                  (''/r/exercises/e/problem/tests/t.js'', File ''test'')],
         trace = [Copied ''/r/exercises/e/solution/tests'' ''/r/exercises/e/problem/tests'']\<rparr>)"
  by code_simp


section \<open>Directories and other entries\<close>

text \<open>
  Claim C6. The script filters the exercise containers with \<open>isDirectory\<close>, but not
  the entries it lists inside them: those are filtered by name alone. So a regular file
  whose name matches \<open>/(problem|solution)/\<close> is listed in \<open>exerciseApps\<close>, and
  \<open>copyTestFiles\<close> takes it for a problem variant. Here the file is
  \<open>01.problem.notes\<close>, the solution beside it has tests, and the copy into the
  \<open>tests\<close> path of the file ends the run with \<open>ENOTDIR\<close>.
\<close>

theorem file_variant_is_processed:
  "stat [(''/r'', Dir), (''/r/exercises'', Dir), (''/r/exercises/e'', Dir),
         (''/r/exercises/e/01.problem.notes'', File ''notes''),
         (''/r/exercises/e/01.solution.notes'', Dir),
         (''/r/exercises/e/01.solution.notes/tests'', Dir)] ''/r/exercises/e/01.problem.notes''
     = Some (File ''notes'')
   \<and> exercises ''/r/epicshop''
        [(''/r'', Dir), (''/r/exercises'', Dir), (''/r/exercises/e'', Dir),
         (''/r/exercises/e/01.problem.notes'', File ''notes''),
         (''/r/exercises/e/01.solution.notes'', Dir),
         (''/r/exercises/e/01.solution.notes/tests'', Dir)]
     = Inr [''/r/exercises/e'']
   \<and> exerciseApps ''/r/epicshop''
        [(''/r'', Dir), (''/r/exercises'', Dir), (''/r/exercises/e'', Dir),
         (''/r/exercises/e/01.problem.notes'', File ''notes''),
         (''/r/exercises/e/01.solution.notes'', Dir),
         (''/r/exercises/e/01.solution.notes/tests'', Dir)]
     = Inr [''/r/exercises/e/01.problem.notes'', ''/r/exercises/e/01.solution.notes'']
   \<and> mirrorTests ''/r/exercises/e/01.problem.notes''
        \<lparr>files = [(''/r'', Dir), (''/r/exercises'', Dir), (''/r/exercises/e'', Dir),
                  (''/r/exercises/e/01.problem.notes'', File ''notes''),
                  (''/r/exercises/e/01.solution.notes'', Dir),
                  (''/r/exercises/e/01.solution.notes/tests'', Dir)],
         trace = []\<rparr>
     = (Some ENOTDIR,
        \<lparr>files = [(''/r'', Dir), (''/r/exercises'', Dir), (''/r/exercises/e'', Dir),
                  (''/r/exercises/e/01.problem.notes'', File ''notes''),
                  (''/r/exercises/e/01.solution.notes'', Dir),
                  (''/r/exercises/e/01.solution.notes/tests'', Dir)],
         trace = []\<rparr>)
   \<and> fst (main ''/r/epicshop''
        \<lparr>files = [(''/r'', Dir), (''/r/exercises'', Dir), (''/r/exercises/e'', Dir),
                  (''/r/exercises/e/01.problem.notes'', File ''notes''),
                  (''/r/exercises/e/01.solution.notes'', Dir),
                  (''/r/exercises/e/01.solution.notes/tests'', Dir)],
         trace = []\<rparr>) = Some ENOTDIR"
  by code_simp

text \<open>
  What the script does filter. On a well-formed filesystem every exercise container is a
  directory, and every project the manifest namer goes through is a directory: only a
  directory holds a manifest.
\<close>

lemma projects_are_directories:
  assumes "wf_fs fs" and "is_absolute dirname"
    and "exercises dirname fs = Inr exs" and "appsWithPkgJson dirname fs = Inr apps"
  shows "(\<forall>x\<in>set exs. stat fs x = Some Dir) \<and> (\<forall>a\<in>set apps. stat fs a = Some Dir)"
proof
  show "\<forall>x\<in>set exs. stat fs x = Some Dir"
    using exercises_form[OF assms(2,3)] by blast
  show "\<forall>a\<in>set apps. stat fs a = Some Dir"
  proof
    fix a assume a: "a \<in> set apps"
    have c: "clean a" by (rule apps_clean[OF assms(2,4) a])
    have "has_pkgjson fs a" by (rule appsWithPkgJson_has_pkgjson[OF assms(4) a])
    then have "stat fs (a @ CHR ''/'' # ''package.json'') \<noteq> None"
      using clean_join(1)[OF c, of "''package.json''"]
      by (simp add: has_pkgjson_def exists_def proper_name_def split: if_splits)
    from wf_fs_parent_dir[OF assms(1) c this] show "stat fs a = Some Dir" .
  qed
qed

lemma projects_are_directories_example:
  "wf_fs [(''/r'', Dir), (''/r/exercises'', Dir), (''/r/exercises/README.md'', File ''text''),
          (''/r/exercises/e'', Dir), (''/r/exercises/e/problem.md'', File ''notes''),
          (''/r/exercises/e/solution'', Dir),
          (''/r/exercises/e/solution/package.json'', File ''{}'')]
   \<and> exerciseApps ''/r/epicshop''
         [(''/r'', Dir), (''/r/exercises'', Dir), (''/r/exercises/README.md'', File ''text''),
          (''/r/exercises/e'', Dir), (''/r/exercises/e/problem.md'', File ''notes''),
          (''/r/exercises/e/solution'', Dir),
          (''/r/exercises/e/solution/package.json'', File ''{}'')]
       = Inr [''/r/exercises/e/problem.md'', ''/r/exercises/e/solution'']
   \<and> appsWithPkgJson ''/r/epicshop''
         [(''/r'', Dir), (''/r/exercises'', Dir), (''/r/exercises/README.md'', File ''text''),
          (''/r/exercises/e'', Dir), (''/r/exercises/e/problem.md'', File ''notes''),
          (''/r/exercises/e/solution'', Dir),
          (''/r/exercises/e/solution/package.json'', File ''{}'')]
       = Inr [''/r/exercises/e/solution'']
   \<and> stat [(''/r'', Dir), (''/r/exercises'', Dir), (''/r/exercises/README.md'', File ''text''),
          (''/r/exercises/e'', Dir), (''/r/exercises/e/problem.md'', File ''notes''),
          (''/r/exercises/e/solution'', Dir),
          (''/r/exercises/e/solution/package.json'', File ''{}'')] ''/r/exercises/e'' = Some Dir
   \<and> stat [(''/r'', Dir), (''/r/exercises'', Dir), (''/r/exercises/README.md'', File ''text''),
          (''/r/exercises/e'', Dir), (''/r/exercises/e/problem.md'', File ''notes''),
          (''/r/exercises/e/solution'', Dir),
          (''/r/exercises/e/solution/package.json'', File ''{}'')] ''/r/exercises/e/solution''
       = Some Dir"
proof -
  let ?fs = "[(''/r'', Dir), (''/r/exercises'', Dir), (''/r/exercises/README.md'', File ''text''),
          (''/r/exercises/e'', Dir), (''/r/exercises/e/problem.md'', File ''notes''),
          (''/r/exercises/e/solution'', Dir),
          (''/r/exercises/e/solution/package.json'', File ''{}'')]"
  have w: "wf_fs ?fs" by code_simp
  have a: "is_absolute ''/r/epicshop''" by (simp add: is_absolute_def)
  have e: "exercises ''/r/epicshop'' ?fs = Inr [''/r/exercises/e'']" by code_simp
  have v: "exerciseApps ''/r/epicshop'' ?fs
       = Inr [''/r/exercises/e/problem.md'', ''/r/exercises/e/solution'']" by code_simp
  have p: "appsWithPkgJson ''/r/epicshop'' ?fs = Inr [''/r/exercises/e/solution'']" by code_simp
  from projects_are_directories [OF w a e p] w v p show ?thesis by simp
qed

section \<open>What a rewrite keeps\<close>




section \<open>The variant test mirror\<close>

text \<open>
  Claim C8, as amended. When nothing at all exists at the \<open>tests\<close> path of the derived
  solution path (the first \<open>problem\<close> of the path replaced by \<open>solution\<close>), one round of
  \<open>copyTestFiles\<close> does nothing: the filesystem and the trace stay as they are, so a
  \<open>tests\<close> directory of the problem variant is left untouched.
\<close>

theorem mirrorTests_without_solution_tests:
  "stat (files s) (path_join [js_replace ''problem'' ''solution'' app, ''tests'']) = None
   \<Longrightarrow> mirrorTests app s = (None, s)"
  by (simp add: mirrorTests_def exists_def Let_def)

theorem mirrorTests_without_solution_tests_witness:
  "stat [(''/r'', Dir), (''/r/problem'', Dir), (''/r/problem/tests'', Dir),
         (''/r/problem/tests/old.test.js'', File ''old''), (''/r/solution'', Dir)]
        (path_join [js_replace ''problem'' ''solution'' ''/r/problem'', ''tests'']) = None
   \<and> mirrorTests ''/r/problem''
        \<lparr>files = [(''/r'', Dir), (''/r/problem'', Dir), (''/r/problem/tests'', Dir),
                  (''/r/problem/tests/old.test.js'', File ''old''), (''/r/solution'', Dir)],
         trace = []\<rparr>
     = (None,
        \<lparr>files = [(''/r'', Dir), (''/r/problem'', Dir), (''/r/problem/tests'', Dir),
                  (''/r/problem/tests/old.test.js'', File ''old''), (''/r/solution'', Dir)],
         trace = []\<rparr>)"
proof -
  have h: "stat (files \<lparr>files = [(''/r'', Dir), (''/r/problem'', Dir), (''/r/problem/tests'', Dir),
         (''/r/problem/tests/old.test.js'', File ''old''), (''/r/solution'', Dir)], trace = []\<rparr>)
        (path_join [js_replace ''problem'' ''solution'' ''/r/problem'', ''tests'']) = None"
    by code_simp
  from mirrorTests_without_solution_tests [OF h] h show ?thesis by simp
qed

text \<open>
  Claim C8 as the specification states it fails when the solution holds a regular file
  named \<open>tests\<close>: the solution then has no \<open>tests\<close> subdirectory, yet \<open>exists\<close>
  (a \<open>statSync\<close> that succeeds) holds of the path, the \<open>tests\<close> directory of the
  problem variant is removed with the stale file in it, and the regular file is copied in
  its place.
\<close>

theorem mirrorTests_tests_file_counterexample:
  "stat [(''/r'', Dir), (''/r/problem'', Dir), (''/r/problem/tests'', Dir),
         (''/r/problem/tests/old.test.js'', File ''old''), (''/r/solution'', Dir),
         (''/r/solution/tests'', File ''notes'')]
        (path_join [js_replace ''problem'' ''solution'' ''/r/problem'', ''tests''])
     = Some (File ''notes'')
   \<and> mirrorTests ''/r/problem''
        \<lparr>files = [(''/r'', Dir), (''/r/problem'', Dir), (''/r/problem/tests'', Dir),
                  (''/r/problem/tests/old.test.js'', File ''old''), (''/r/solution'', Dir),
                  (''/r/solution/tests'', File ''notes'')],
         trace = []\<rparr>
     = (None,
        \<lparr>files = [(''/r'', Dir), (''/r/problem'', Dir), (''/r/solution'', Dir),
                  (''/r/solution/tests'', File ''notes''), (''/r/problem/tests'', File ''notes'')],
         trace = [Removed ''/r/problem/tests'',
                  Copied ''/r/solution/tests'' ''/r/problem/tests'']\<rparr>)"
  by code_simp

section \<open>The order of the two loops\<close>

text \<open>
  Claim C9. The trace of every run of the module, finished or ended by an error, is a
  run of manifest writes and notifications followed by a run of removals and copies: no
  manifest write is interleaved with or follows a removal or a copy. When any removal or
  copy happens at all, \<open>updatePkgNames\<close> has gone through every project of
  \<open>appsWithPkgJson\<close> without an error, and the manifest events are its whole trace.
\<close>

theorem naming_before_mirroring:
  assumes "main dirname s = (r, s')"
  shows "\<exists>t1 t2. trace s' = trace s @ t1 @ t2
           \<and> list_all is_naming_event t1 \<and> list_all is_mirror_event t2
           \<and> (t2 \<noteq> [] \<longrightarrow>
                (\<exists>apps s1. appsWithPkgJson dirname (files s) = Inr apps
                   \<and> updatePkgNames dirname apps s = (None, s1)
                   \<and> trace s1 = trace s @ t1))"
proof (cases "appsWithPkgJson dirname (files s)")
  case (Inl e)
  with assms have "s' = s" by (simp add: main_def)
  then show ?thesis by (intro exI[of _ "[]"]) simp
next
  case apps: (Inr apps)
  show ?thesis
  proof (cases "exerciseApps dirname (files s)")
    case (Inl e)
    with assms apps have "s' = s" by (simp add: main_def)
    then show ?thesis by (intro exI[of _ "[]"]) simp
  next
    case exe: (Inr exe)
    obtain r1 s1 where u: "updatePkgNames dirname apps s = (r1, s1)" by force
    from updatePkgNames_trace[OF u] obtain t1 where t1: "trace s1 = trace s @ t1"
      "list_all is_naming_event t1" by blast
    show ?thesis
    proof (cases r1)
      case (Some e)
      with assms apps exe u have "s' = s1" by (simp add: main_def)
      with t1 show ?thesis by (intro exI[of _ t1] exI[of _ "[]"]) simp
    next
      case None
      with assms apps exe u have "copyTestFiles exe s1 = (r, s')" by (simp add: main_def)
      from copyTestFiles_trace[OF this] obtain t2 where "trace s' = trace s1 @ t2"
        "list_all is_mirror_event t2" by blast
      with t1 u None apps show ?thesis by (intro exI[of _ t1] exI[of _ t2]) simp
    qed
  qed
qed

theorem naming_before_mirroring_witness:
  "trace (snd (main ''/r/epicshop''
       \<lparr>files = [(''/r'', Dir), (''/r/examples'', Dir), (''/r/examples/a'', Dir),
                 (''/r/examples/a/package.json'', File ''{}''),
                 (''/r/exercises'', Dir), (''/r/exercises/e'', Dir),
                 (''/r/exercises/e/problem'', Dir), (''/r/exercises/e/solution'', Dir),
                 (''/r/exercises/e/solution/tests'', Dir),
                 (''/r/exercises/e/solution/tests/t.js'', File ''test'')],
        trace = []\<rparr>))
     = [Written ''/r/examples/a/package.json''
          (''{'' @ [CHR 0x0A] @ ''  '' @ [CHR 0x22] @ ''name'' @ [CHR 0x22] @ '': ''
            @ [CHR 0x22] @ ''examples__sep__a'' @ [CHR 0x22] @ [CHR 0x0A] @ ''}'' @ [CHR 0x0A]),
        Logged ''/r/examples/a/package.json'',
        Copied ''/r/exercises/e/solution/tests'' ''/r/exercises/e/problem/tests'']
   \<and> (\<exists>t1 t2.
         trace (snd (main ''/r/epicshop''
           \<lparr>files = [(''/r'', Dir), (''/r/examples'', Dir), (''/r/examples/a'', Dir),
                     (''/r/examples/a/package.json'', File ''{}''),
                     (''/r/exercises'', Dir), (''/r/exercises/e'', Dir),
                     (''/r/exercises/e/problem'', Dir), (''/r/exercises/e/solution'', Dir),
                     (''/r/exercises/e/solution/tests'', Dir),
                     (''/r/exercises/e/solution/tests/t.js'', File ''test'')],
            trace = []\<rparr>)) = t1 @ t2
         \<and> list_all is_naming_event t1 \<and> list_all is_mirror_event t2 \<and> t2 \<noteq> [])"
proof -
  let ?s = "\<lparr>files = [(''/r'', Dir), (''/r/examples'', Dir), (''/r/examples/a'', Dir),
                 (''/r/examples/a/package.json'', File ''{}''),
                 (''/r/exercises'', Dir), (''/r/exercises/e'', Dir),
                 (''/r/exercises/e/problem'', Dir), (''/r/exercises/e/solution'', Dir),
                 (''/r/exercises/e/solution/tests'', Dir),
                 (''/r/exercises/e/solution/tests/t.js'', File ''test'')],
        trace = []\<rparr>"
  have run: "trace (snd (main ''/r/epicshop'' ?s))
     = [Written ''/r/examples/a/package.json''
          (''{'' @ [CHR 0x0A] @ ''  '' @ [CHR 0x22] @ ''name'' @ [CHR 0x22] @ '': ''
            @ [CHR 0x22] @ ''examples__sep__a'' @ [CHR 0x22] @ [CHR 0x0A] @ ''}'' @ [CHR 0x0A]),
        Logged ''/r/examples/a/package.json'',
        Copied ''/r/exercises/e/solution/tests'' ''/r/exercises/e/problem/tests'']"
    by code_simp
  have "main ''/r/epicshop'' ?s = (fst (main ''/r/epicshop'' ?s), snd (main ''/r/epicshop'' ?s))"
    by simp
  from naming_before_mirroring [OF this] obtain t1 t2 where
    t: "trace (snd (main ''/r/epicshop'' ?s)) = trace ?s @ t1 @ t2"
    and n: "list_all is_naming_event t1" and m: "list_all is_mirror_event t2" by blast
  have "t2 \<noteq> []"
  proof
    assume "t2 = []"
    with t run have "t1 = [Written ''/r/examples/a/package.json''
          (''{'' @ [CHR 0x0A] @ ''  '' @ [CHR 0x22] @ ''name'' @ [CHR 0x22] @ '': ''
            @ [CHR 0x22] @ ''examples__sep__a'' @ [CHR 0x22] @ [CHR 0x0A] @ ''}'' @ [CHR 0x0A]),
        Logged ''/r/examples/a/package.json'',
        Copied ''/r/exercises/e/solution/tests'' ''/r/exercises/e/problem/tests'']" by simp
    with n show False by (simp add: is_naming_event_def)
  qed
  with t n m run show ?thesis by auto
qed

section \<open>An example is listed twice and written once\<close>

text \<open>
  Claim C10. On a well-formed filesystem, every example project with a manifest occurs
  exactly twice in \<open>appsWithPkgJson\<close> (which puts \<open>examples\<close> before
  \<open>exampleApps\<close>, two listings of the same directory), and yet in the whole run of
  \<open>updatePkgNames\<close> its manifest is written at most once and at most one notification
  is printed for it: once a round has gone through a project its manifest is settled
  (lemma \<open>nameProject_settles\<close>), rounds on other projects keep it so, and a round on a
  settled manifest writes nothing (lemma \<open>nameProject_settled\<close>).
\<close>

theorem examples_twice_written_once:
  assumes "is_absolute dirname" and "wf_fs (files s)"
    and "examples dirname (files s) = Inr exa"
    and "appsWithPkgJson dirname (files s) = Inr apps"
    and "p \<in> set exa" and "has_pkgjson (files s) p"
    and "updatePkgNames dirname apps s = (r, s')"
  shows "count_list apps p = 2
       \<and> (\<exists>t. trace s' = trace s @ t
              \<and> length (writes_to (path_join [p, ''package.json'']) t) \<le> 1
              \<and> length (logs_of (path_join [p, ''package.json'']) t) \<le> 1)"
proof -
  let ?P = "path_join [p, ''package.json'']"
  from appsWithPkgJson_eq[OF assms(4)] assms(3) obtain exe where
    exe: "exerciseApps dirname (files s) = Inr exe"
    and apps: "apps = filter (has_pkgjson (files s)) (exa @ exa @ exe)" by auto
  from assms(2) have "distinct (map fst (files s))" by (simp add: wf_fs_def)
  then have d: "distinct exa" by (rule examples_distinct[OF assms(1) _ assms(3)])
  have c1: "count_list exa p = 1" by (rule count_list_distinct[OF d assms(5)])
  have "p \<notin> set exe" by (rule example_not_exercise[OF assms(1,3) exe assms(5)])
  then have c0: "count_list exe p = 0" by (simp add: count_list_0_iff)
  have "count_list apps p = count_list (exa @ exa @ exe) p"
    unfolding apps using assms(6) by (simp only: count_list_filter if_True)
  with c1 c0 have c: "count_list apps p = 2" by simp
  have pin: "p \<in> set apps" using assms(5,6) by (simp add: apps)
  have cp: "clean p" by (rule apps_clean[OF assms(1,4) pin])
  have pk: "proper_name ''package.json''" by (simp add: proper_name_def)
  have pp: "?P = p @ ''/'' @ ''package.json''" by (rule clean_join(1)[OF cp pk])
  have inj: "\<forall>f \<in> set apps. path_join [f, ''package.json''] = ?P \<longrightarrow> f = p"
  proof (intro ballI impI)
    fix f assume f: "f \<in> set apps" and eq: "path_join [f, ''package.json''] = ?P"
    have "clean f" by (rule apps_clean[OF assms(1,4) f])
    then have "path_join [f, ''package.json''] = f @ ''/'' @ ''package.json''"
      using pk by (rule clean_join(1))
    with eq pp have "f @ ''/'' @ ''package.json'' = p @ ''/'' @ ''package.json''" by simp
    then show "f = p" by simp
  qed
  from updatePkgNames_once[OF inj assms(7)] obtain t where
    "trace s' = trace s @ t" "length (writes_to ?P t) \<le> 1" "length (logs_of ?P t) \<le> 1"
    by blast
  then have "\<exists>t. trace s' = trace s @ t \<and> length (writes_to ?P t) \<le> 1 \<and> length (logs_of ?P t) \<le> 1"
    by blast
  with c show ?thesis by simp
qed

theorem examples_twice_written_once_witness:
  "appsWithPkgJson ''/r/epicshop''
      [(''/r'', Dir), (''/r/examples'', Dir), (''/r/examples/a'', Dir),
       (''/r/examples/a/package.json'', File ''{}'')]
     = Inr [''/r/examples/a'', ''/r/examples/a'']
   \<and> count_list [''/r/examples/a'', ''/r/examples/a''] ''/r/examples/a'' = 2
   \<and> trace (snd (updatePkgNames ''/r/epicshop'' [''/r/examples/a'', ''/r/examples/a'']
        \<lparr>files = [(''/r'', Dir), (''/r/examples'', Dir), (''/r/examples/a'', Dir),
                  (''/r/examples/a/package.json'', File ''{}'')],
         trace = []\<rparr>))
     = [Written ''/r/examples/a/package.json''
          (''{'' @ [CHR 0x0A] @ ''  '' @ [CHR 0x22] @ ''name'' @ [CHR 0x22] @ '': ''
            @ [CHR 0x22] @ ''examples__sep__a'' @ [CHR 0x22] @ [CHR 0x0A] @ ''}'' @ [CHR 0x0A]),
        Logged ''/r/examples/a/package.json'']
   \<and> (\<exists>t. trace (snd (updatePkgNames ''/r/epicshop'' [''/r/examples/a'', ''/r/examples/a'']
          \<lparr>files = [(''/r'', Dir), (''/r/examples'', Dir), (''/r/examples/a'', Dir),
                    (''/r/examples/a/package.json'', File ''{}'')],
           trace = []\<rparr>)) = t
        \<and> length (writes_to (path_join [''/r/examples/a'', ''package.json'']) t) \<le> 1
        \<and> length (logs_of (path_join [''/r/examples/a'', ''package.json'']) t) \<le> 1)"
proof -
  let ?fs = "[(''/r'', Dir), (''/r/examples'', Dir), (''/r/examples/a'', Dir),
       (''/r/examples/a/package.json'', File ''{}'')]"
  let ?s = "\<lparr>files = ?fs, trace = []\<rparr>"
  let ?run = "updatePkgNames ''/r/epicshop'' [''/r/examples/a'', ''/r/examples/a''] ?s"
  have a: "is_absolute ''/r/epicshop''" by (simp add: is_absolute_def)
  have w: "wf_fs (files ?s)" by code_simp
  have e: "examples ''/r/epicshop'' (files ?s) = Inr [''/r/examples/a'']" by code_simp
  have l: "appsWithPkgJson ''/r/epicshop'' (files ?s) = Inr [''/r/examples/a'', ''/r/examples/a'']"
    by code_simp
  have m: "''/r/examples/a'' \<in> set [''/r/examples/a'']" by simp
  have h: "has_pkgjson (files ?s) ''/r/examples/a''" by code_simp
  have r: "?run = (fst ?run, snd ?run)" by simp
  have t: "trace (snd ?run)
     = [Written ''/r/examples/a/package.json''
          (''{'' @ [CHR 0x0A] @ ''  '' @ [CHR 0x22] @ ''name'' @ [CHR 0x22] @ '': ''
            @ [CHR 0x22] @ ''examples__sep__a'' @ [CHR 0x22] @ [CHR 0x0A] @ ''}'' @ [CHR 0x0A]),
        Logged ''/r/examples/a/package.json'']"
    by code_simp
  from examples_twice_written_once [OF a w e l m h r]
  have "count_list [''/r/examples/a'', ''/r/examples/a''] ''/r/examples/a'' = 2"
    and "\<exists>t. trace (snd ?run) = t
        \<and> length (writes_to (path_join [''/r/examples/a'', ''package.json'']) t) \<le> 1
        \<and> length (logs_of (path_join [''/r/examples/a'', ''package.json'']) t) \<le> 1"
    by simp_all
  with l t show ?thesis by simp
qed

end
